theory Spec2Isabelle
  imports Main
begin

section \<open>Machine integers\<close>

text \<open>
  The C++ type \<open>int\<close> is a 32-bit two's complement integer.  Values are modelled as
  \<open>int\<close> and every addition or subtraction the program performs is wrapped into the
  32-bit range by \<open>wrap_int32\<close> (the C++ standard leaves signed overflow undefined;
  the wrap-around is what the usual targets compute).  \<open>INF\<close> is the macro
  \<open>std::numeric_limits<int>::max()\<close> of Graph.h, here \<open>INF_int\<close>.

  The field \<open>distance\<close> of a location is a \<open>double\<close>, but it only ever holds
  \<open>INF\<close>, \<open>0\<close> and values written from an \<open>int\<close>, all of which a
  \<open>double\<close> represents exactly; it is modelled as \<open>int\<close>.
\<close>

definition INF_int :: int where
  "INF_int = 2147483647"

definition wrap_int32 :: "int \<Rightarrow> int" where
  "wrap_int32 k = (k + 2147483648) mod 4294967296 - 2147483648"

section \<open>Graph.h: roads, locations, the graph\<close>

text \<open>
  A \<open>Location*\<close> is the index of the location in the vector \<open>Graph::locations\<close>
  (locations are only ever appended, never removed).  A \<open>Road*\<close> is the road
  itself: roads are immutable while a search runs.  \<open>nullptr\<close> is \<open>None\<close>.
  The field \<open>id\<close> of a location is \<open>loc_id\<close>, the field \<open>walkingTime\<close> of a
  suggestion is \<open>walkingTime_s\<close>.
\<close>

record Road =
  origin :: nat
  destination :: nat
  drivingTime :: int
  walkingTime :: int

record Location =
  loc_id :: int
  code :: string
  hasParking :: bool
  adj :: "Road list"
  parent :: "Road option"
  distance :: int

type_synonym Graph = "Location list"

record Suggestion =
  drivePath :: "int list"
  walkPath :: "int list"
  parkingNode :: int
  totalTime :: int
  walkingTime_s :: int
  exceedWalkingBy :: int

datatype error = NullPointer | OutOfBounds

text \<open>
  The outcome of a call: \<open>None\<close> when the call never returns, \<open>Some (Inl e)\<close> when it
  dereferences a null pointer or reads a vector out of bounds, \<open>Some (Inr r)\<close> when it
  returns \<open>r\<close>.
\<close>

type_synonym 'a outcome = "(error + 'a) option"

text \<open>
  \<open>Graph::addLocation\<close>, and \<open>Graph::addRoad\<close> for two locations of the graph
  (with a null endpoint \<open>addRoad\<close> does nothing).
\<close>

definition addLocation :: "Graph \<Rightarrow> int \<Rightarrow> string \<Rightarrow> bool \<Rightarrow> Graph" where
  "addLocation g i c p =
     g @ [\<lparr>loc_id = i, code = c, hasParking = p, adj = [], parent = None, distance = 0\<rparr>]"

definition addRoad :: "Graph \<Rightarrow> nat \<Rightarrow> nat \<Rightarrow> int \<Rightarrow> int \<Rightarrow> Graph" where
  "addRoad g from to dt wt =
     (let g1 = g[from := (g ! from)\<lparr>adj := adj (g ! from) @
                 [\<lparr>origin = from, destination = to, drivingTime = dt, walkingTime = wt\<rparr>]\<rparr>]
      in g1[to := (g1 ! to)\<lparr>adj := adj (g1 ! to) @
                 [\<lparr>origin = to, destination = from, drivingTime = dt, walkingTime = wt\<rparr>]\<rparr>])"

text \<open>\<open>Graph::findLocation(const int&)\<close>: the first location with the identifier.\<close>

primrec findLocation :: "Graph \<Rightarrow> int \<Rightarrow> nat option" where
  "findLocation [] i = None"
| "findLocation (l # ls) i =
     (if loc_id l = i then Some 0 else map_option Suc (findLocation ls i))"

section \<open>Graph::dijkstra\<close>

text \<open>
  The priority queue holds pairs (distance, identifier) and \<open>top\<close> is the least pair
  in the lexicographic order on pairs (the comparator is \<open>std::greater\<close>).  Equal
  pairs cannot be told apart, so the queue is the list of its elements, \<open>pq_top\<close>
  its least element and \<open>pq_pop\<close> removes one copy of it.  The loop takes the top
  of a non-empty queue only.
\<close>

definition pq_less :: "int \<times> int \<Rightarrow> int \<times> int \<Rightarrow> bool" where
  "pq_less a b = (fst a < fst b \<or> (fst a = fst b \<and> snd a < snd b))"

fun pq_top :: "(int \<times> int) list \<Rightarrow> int \<times> int" where
  "pq_top [] = (0, 0)"
| "pq_top [x] = x"
| "pq_top (x # y # ys) = (let m = pq_top (y # ys) in if pq_less m x then m else x)"

definition pq_pop :: "(int \<times> int) list \<Rightarrow> (int \<times> int) list" where
  "pq_pop pq = remove1 (pq_top pq) pq"

text \<open>
  The body of the inner \<open>for\<close> loop for one road of the popped location.
  Roads made by \<open>addRoad\<close> always point to a location of the graph; the test
  \<open>destination road < length g\<close> only keeps the model defined on other values.
\<close>

definition relax ::
  "bool \<Rightarrow> (int \<times> int) set \<Rightarrow> int \<Rightarrow> int \<Rightarrow> Graph \<times> (int \<times> int) list \<Rightarrow> Road
     \<Rightarrow> Graph \<times> (int \<times> int) list" where
  "relax isDriving blockedSegments currentDist currentNodeId s road =
     (let g = fst s; pq = snd s;
          edgeWeight = (if isDriving then drivingTime road else walkingTime road) in
      if edgeWeight = INF_int then s
      else if \<not> destination road < length g then s
      else if (currentNodeId, loc_id (g ! destination road)) \<in> blockedSegments then s
      else
        let newDist = wrap_int32 (currentDist + edgeWeight) in
        if newDist < distance (g ! destination road)
        then (g[destination road :=
                  (g ! destination road)\<lparr>parent := Some road, distance := newDist\<rparr>],
              pq @ [(newDist, loc_id (g ! destination road))])
        else s)"

text \<open>One iteration of the \<open>while (!pq.empty())\<close> loop.\<close>

definition dijkstra_step ::
  "bool \<Rightarrow> int set \<Rightarrow> (int \<times> int) set \<Rightarrow> Graph \<times> (int \<times> int) list
     \<Rightarrow> error + Graph \<times> (int \<times> int) list" where
  "dijkstra_step isDriving blockedNodes blockedSegments s =
     (let g = fst s; pq = snd s;
          currentDist = fst (pq_top pq); currentNodeId = snd (pq_top pq) in
      case findLocation g currentNodeId of
        None \<Rightarrow> Inl NullPointer
      | Some currentNode \<Rightarrow>
          if currentDist > distance (g ! currentNode) then Inr (g, pq_pop pq)
          else if currentNodeId \<in> blockedNodes then Inr (g, pq_pop pq)
          else Inr (fold (\<lambda>road s'. relax isDriving blockedSegments currentDist currentNodeId s' road)
                      (adj (g ! currentNode)) (g, pq_pop pq)))"

text \<open>
  The loop terminates on every graph: a relaxation strictly lowers a distance, which
  never goes below the least 32-bit value, and every iteration pops one entry.
\<close>

definition loop_measure :: "Graph \<times> (int \<times> int) list \<Rightarrow> nat" where
  "loop_measure s = length (snd s) + (\<Sum>l\<leftarrow>fst s. nat (distance l + 2147483648))"

lemma pq_top_in: "pq \<noteq> [] \<Longrightarrow> pq_top pq \<in> set pq"
  by (induction pq rule: pq_top.induct) (auto simp: Let_def)

lemma length_pq_pop: "pq \<noteq> [] \<Longrightarrow> Suc (length (pq_pop pq)) = length pq"
  by (simp add: pq_pop_def length_remove1 pq_top_in)

lemma wrap_int32_range: "- 2147483648 \<le> wrap_int32 k" "wrap_int32 k \<le> 2147483647"
  by (simp_all add: wrap_int32_def) 

lemma wrap_int32_id: "- 2147483648 \<le> k \<Longrightarrow> k \<le> 2147483647 \<Longrightarrow> wrap_int32 k = k"
  by (simp add: wrap_int32_def)

lemma relax_measure: "loop_measure (relax isD bS cd cn s road) \<le> loop_measure s"
proof -
  obtain g pq where s: "s = (g, pq)" by (cases s)
  show ?thesis
  proof (cases "relax isD bS cd cn s road = s")
    case True then show ?thesis by simp
  next
    case False
    define k where "k = destination road"
    define nd where "nd = wrap_int32 (cd + (if isD then drivingTime road else walkingTime road))"
    from False have k: "k < length g" and lt: "nd < distance (g ! k)"
      and r: "relax isD bS cd cn (g, pq) road = (g[k := (g ! k)\<lparr>parent := Some road, distance := nd\<rparr>], pq @ [(nd, loc_id (g ! k))])"
      by (auto simp: relax_def Let_def s k_def nd_def split: if_splits)
    let ?f = "\<lambda>l. nat (distance l + 2147483648)"
    let ?l' = "(g ! k)\<lparr>parent := Some road, distance := nd\<rparr>"
    have "nd \<ge> - 2147483648" by (simp add: nd_def wrap_int32_range)
    with lt have dec: "?f ?l' < ?f (g ! k)" by simp
    have upd: "sum_list (map ?f (g[k := ?l'])) = sum_list (map ?f g) + ?f ?l' - ?f (g ! k)"
      using k by (simp add: map_update sum_list_update)
    have le: "?f (g ! k) \<le> sum_list (map ?f g)"
      using k by (simp add: member_le_sum_list)
    have "loop_measure (relax isD bS cd cn s road)
        = Suc (length pq) + sum_list (map ?f (g[k := ?l']))"
      by (simp add: r s loop_measure_def)
    also have "\<dots> \<le> length pq + sum_list (map ?f g)"
      unfolding upd using dec le by linarith
    finally show ?thesis by (simp add: loop_measure_def s)
  qed
qed

lemma fold_relax_measure:
  "loop_measure (fold (\<lambda>road s'. relax isD bS cd cn s' road) rs s) \<le> loop_measure s"
proof (induction rs arbitrary: s)
  case Nil show ?case by simp
next
  case (Cons r rs)
  show ?case using Cons.IH[of "relax isD bS cd cn s r"] relax_measure[of isD bS cd cn s r] by simp
qed

lemma dijkstra_step_measure:
  assumes "snd s \<noteq> []" "dijkstra_step isD bN bS s = Inr s'"
  shows "loop_measure s' < loop_measure s"
proof -
  have p: "loop_measure (fst s, pq_pop (snd s)) < loop_measure s"
    using length_pq_pop[OF assms(1)] by (simp add: loop_measure_def)
  show ?thesis using assms(2) p fold_relax_measure[of isD bS "fst (pq_top (snd s))" "snd (pq_top (snd s))" _ "(fst s, pq_pop (snd s))"]
    by (auto simp: dijkstra_step_def Let_def split: option.splits if_splits intro: le_less_trans)
qed

text \<open>The loop \<open>while (!pq.empty())\<close>.\<close>

function dijkstra_loop ::
  "bool \<Rightarrow> int set \<Rightarrow> (int \<times> int) set \<Rightarrow> Graph \<times> (int \<times> int) list \<Rightarrow> error + Graph" where
  "dijkstra_loop isDriving blockedNodes blockedSegments s =
     (if snd s = [] then Inr (fst s)
      else case dijkstra_step isDriving blockedNodes blockedSegments s of
             Inl e \<Rightarrow> Inl e
           | Inr s' \<Rightarrow> dijkstra_loop isDriving blockedNodes blockedSegments s')"
  by pat_completeness auto
termination
  by (relation "measure (\<lambda>(isD, bN, bS, s). loop_measure s)") (auto simp: dijkstra_step_measure)


text \<open>
  Path reconstruction: the loop
  \<open>while (destination->getParent() != nullptr && destination->getId() != sourceId)\<close>.
  \<open>cur\<close> is the pointer \<open>destination\<close>, \<open>path\<close> the vector built by
  \<open>push_back\<close>.  The loop does not return when the parent references run in a
  cycle that avoids the source: the result is then \<open>None\<close>.
\<close>

partial_function (option) reconstruct ::
  "Graph \<Rightarrow> int \<Rightarrow> nat \<Rightarrow> int list \<Rightarrow> (int \<times> int) set
     \<Rightarrow> (int list \<times> (int \<times> int) set) option" where
  "reconstruct g sourceId cur path blockedSegments =
     (case parent (g ! cur) of
        None \<Rightarrow> Some (path, blockedSegments)
      | Some r \<Rightarrow>
          if loc_id (g ! cur) = sourceId then Some (path, blockedSegments)
          else reconstruct g sourceId (origin r) (path @ [loc_id (g ! origin r)])
                 (insert (loc_id (g ! origin r), loc_id (g ! destination r)) blockedSegments))"

declare reconstruct.simps [code]

text \<open>The initialisation loop and the seeding of the queue, then the main loop.\<close>

definition init_locations :: "Graph \<Rightarrow> Graph" where
  "init_locations g = map (\<lambda>loc. loc\<lparr>parent := None, distance := INF_int\<rparr>) g"

definition dijkstra_search ::
  "Graph \<Rightarrow> int \<Rightarrow> bool \<Rightarrow> int set \<Rightarrow> (int \<times> int) set \<Rightarrow> error + Graph" where
  "dijkstra_search g sourceId isDriving blockedNodes blockedSegments =
     (let g0 = init_locations g in
      case findLocation g0 sourceId of
        None \<Rightarrow> Inl NullPointer
      | Some source \<Rightarrow>
          dijkstra_loop isDriving blockedNodes blockedSegments
            (g0[source := (g0 ! source)\<lparr>distance := 0\<rparr>], [(0, sourceId)]))"

text \<open>
  \<open>Graph::dijkstra\<close>.  The result holds the returned pair, the graph with the
  transient search state the call leaves behind, and the final value of the
  reference parameter \<open>blockedSegments\<close>.  \<open>return {}\<close> is the empty path with
  cost \<open>0\<close>.
\<close>

definition dijkstra ::
  "Graph \<Rightarrow> int \<Rightarrow> int \<Rightarrow> bool \<Rightarrow> int set \<Rightarrow> (int \<times> int) set
     \<Rightarrow> ((int list \<times> int) \<times> Graph \<times> (int \<times> int) set) outcome" where
  "dijkstra g sourceId destinationId isDriving blockedNodes blockedSegments =
     (case dijkstra_search g sourceId isDriving blockedNodes blockedSegments of
        Inl e \<Rightarrow> Some (Inl e)
      | Inr g' \<Rightarrow>
          (case findLocation g' destinationId of
             None \<Rightarrow> Some (Inl NullPointer)
           | Some dest \<Rightarrow>
               let dist = distance (g' ! dest) in
               if dist = INF_int then Some (Inr (([], 0), g', blockedSegments))
               else
                 (case reconstruct g' sourceId dest [loc_id (g' ! dest)]
                         blockedSegments of
                    None \<Rightarrow> None
                  | Some (path, blockedSegments') \<Rightarrow>
                      Some (Inr ((rev path, dist), g', blockedSegments')))))"

section \<open>Graph::EnvironmentallyFriendlyRoute\<close>

text \<open>
  The local variables \<open>bestTotalTime\<close>, \<open>bestWalkingTime\<close>, \<open>bestDrive\<close>,
  \<open>bestWalk\<close>, \<open>bestParking\<close> and \<open>suggestions\<close>.
\<close>

record EcoLocals =
  bestTotalTime :: int
  bestWalkingTime :: int
  bestDrive :: "int list"
  bestWalk :: "int list"
  bestParking :: int
  suggestionsL :: "Suggestion list"

text \<open>
  The state of the \<open>for (auto* parkingNode : locations)\<close> loop: the graph (its
  transient search state changes with every search), the caller's set behind the
  reference \<open>avoidSegments\<close>, and the locals.
\<close>

type_synonym EcoState = "Graph \<times> (int \<times> int) set \<times> EcoLocals"

text \<open>
  One iteration, for the location at index \<open>i\<close>.  \<open>pId\<close> is
  \<open>parkingNode->getId()\<close>, which no search writes.
\<close>

definition eco_iteration ::
  "int \<Rightarrow> int \<Rightarrow> int \<Rightarrow> int set \<Rightarrow> EcoState \<Rightarrow> nat \<Rightarrow> EcoState outcome" where
  "eco_iteration sourceId destId maxWalkingTime avoidNodes st i =
     (let g = fst st; avoidSegments = fst (snd st); loc = snd (snd st);
          pId = loc_id (g ! i) in
      if \<not> hasParking (g ! i) \<or> pId = sourceId \<or> pId = destId then Some (Inr st)
      else
        let tmpSegments = avoidSegments in
        case dijkstra g sourceId pId True avoidNodes tmpSegments of
          None \<Rightarrow> None
        | Some (Inl e) \<Rightarrow> Some (Inl e)
        | Some (Inr (driveResult, g1, tmpSegments1)) \<Rightarrow>
            if fst driveResult = [] then Some (Inr (g1, avoidSegments, loc))
            else
              (case dijkstra g1 pId destId False avoidNodes tmpSegments1 of
                 None \<Rightarrow> None
               | Some (Inl e) \<Rightarrow> Some (Inl e)
               | Some (Inr (walkResult, g2, tmpSegments2)) \<Rightarrow>
                   if fst walkResult = [] then Some (Inr (g2, avoidSegments, loc))
                   else
                     let total = wrap_int32 (snd driveResult + snd walkResult);
                         exceedWalk = max 0 (wrap_int32 (snd walkResult - maxWalkingTime)) in
                     if exceedWalk = 0 then
                       (if total < bestTotalTime loc \<or>
                           (total = bestTotalTime loc \<and> snd walkResult < bestWalkingTime loc)
                        then Some (Inr (g2, avoidSegments,
                               loc\<lparr>bestTotalTime := total, bestDrive := fst driveResult,
                                   bestWalk := fst walkResult,
                                   bestWalkingTime := snd walkResult, bestParking := pId\<rparr>))
                        else Some (Inr (g2, avoidSegments, loc)))
                     else
                       Some (Inr (g2, avoidSegments,
                         loc\<lparr>suggestionsL := suggestionsL loc @
                             [\<lparr>drivePath = fst driveResult, walkPath = fst walkResult,
                               parkingNode = pId, totalTime = total,
                               walkingTime_s = snd walkResult,
                               exceedWalkingBy = exceedWalk\<rparr>]\<rparr>))))"

primrec eco_loop ::
  "int \<Rightarrow> int \<Rightarrow> int \<Rightarrow> int set \<Rightarrow> nat list \<Rightarrow> EcoState \<Rightarrow> EcoState outcome" where
  "eco_loop sourceId destId maxWalkingTime avoidNodes [] st = Some (Inr st)"
| "eco_loop sourceId destId maxWalkingTime avoidNodes (i # is) st =
     (case eco_iteration sourceId destId maxWalkingTime avoidNodes st i of
        None \<Rightarrow> None
      | Some (Inl e) \<Rightarrow> Some (Inl e)
      | Some (Inr st') \<Rightarrow> eco_loop sourceId destId maxWalkingTime avoidNodes is st')"

text \<open>
  The call \<open>std::sort(suggestions.begin(), suggestions.end(), ...)\<close> orders the
  suggestions by total time; the order in which it leaves suggestions with equal total
  time is not specified.  The sort of the library is the parameter \<open>std_sort\<close> of
  the model, and \<open>sorts_by_totalTime\<close> says what is specified of it: its result is
  a permutation of its argument, in ascending order of total time.
\<close>

definition sorts_by_totalTime :: "(Suggestion list \<Rightarrow> Suggestion list) \<Rightarrow> bool" where
  "sorts_by_totalTime std_sort =
     (\<forall>xs. (\<forall>x. count_list (std_sort xs) x = count_list xs x) \<and>
           sorted (map totalTime (std_sort xs)))"

text \<open>
  \<open>Graph::EnvironmentallyFriendlyRoute\<close>.  The result holds the returned tuple
  (drive path, walk path, parking node, total time, walking time, suggestions), the
  graph after the call and the final value of the reference parameter
  \<open>avoidSegments\<close>.  The suggestions are sorted under
  \<open>if (!suggestions.empty())\<close>.
\<close>

definition EnvironmentallyFriendlyRoute ::
  "(Suggestion list \<Rightarrow> Suggestion list) \<Rightarrow> Graph \<Rightarrow> int \<Rightarrow> int \<Rightarrow> int \<Rightarrow> int set
     \<Rightarrow> (int \<times> int) set
     \<Rightarrow> ((int list \<times> int list \<times> int \<times> int \<times> int \<times> Suggestion list)
          \<times> Graph \<times> (int \<times> int) set) outcome" where
  "EnvironmentallyFriendlyRoute std_sort g sourceId destId maxWalkingTime avoidNodes
       avoidSegments =
     (case eco_loop sourceId destId maxWalkingTime avoidNodes [0..<length g]
             (g, avoidSegments,
              \<lparr>bestTotalTime = INF_int, bestWalkingTime = INF_int, bestDrive = [],
                bestWalk = [], bestParking = - 1, suggestionsL = []\<rparr>) of
        None \<Rightarrow> None
      | Some (Inl e) \<Rightarrow> Some (Inl e)
      | Some (Inr (g', avoidSegments', loc)) \<Rightarrow>
          let suggestions = (if suggestionsL loc \<noteq> [] then std_sort (suggestionsL loc)
                             else suggestionsL loc) in
          Some (Inr ((bestDrive loc, bestWalk loc, bestParking loc, bestTotalTime loc,
                      bestWalkingTime loc, suggestions),
                     g', avoidSegments')))"

text \<open>Insertion sort by total time is one such sort.\<close>

lemma count_list_insort_key:
  "count_list (insort_key f a xs) x = count_list (a # xs) x"
  by (induction xs) auto

lemma count_list_sort_key: "count_list (sort_key f xs) x = count_list xs x"
  by (induction xs) (auto simp: count_list_insort_key)

lemma sort_key_sorts_by_totalTime: "sorts_by_totalTime (sort_key totalTime)"
  by (simp add: sorts_by_totalTime_def count_list_sort_key)

section \<open>FileManager::writeOutputFile\<close>

text \<open>
  The output file is the list of the items inserted into the stream with \<open><<\<close>:
  string literals, \<open>int\<close> values and \<open>size_t\<close> values.  The case where the
  file cannot be opened is left out.
\<close>

datatype item = Str string | Num int | Size nat

record Output =
  sourceId :: int
  destId :: int
  bestPath :: "int list \<times> int"
  altPath :: "int list \<times> int"
  parkingNode_o :: int
  totalTime_o :: int
  TypeOfInput :: int
  hasSuggestions :: bool
  suggestions :: "Suggestion list"
  maxWalkingTime :: int

text \<open>The loop that writes a path, its elements separated by commas.\<close>

fun write_path :: "int list \<Rightarrow> item list" where
  "write_path [] = []"
| "write_path [x] = [Num x]"
| "write_path (x # y # ys) = Num x # Str '','' # write_path (y # ys)"

definition write_route :: "string \<Rightarrow> int list \<times> int \<Rightarrow> item list" where
  "write_route label p =
     Str label #
     (if fst p = [] then [Str ''none\<newline>'']
      else write_path (fst p) @ [Str '' ('', Num (snd p), Str '' min)\<newline>''])"

text \<open>
  The body of \<open>for (size_t i = 0; i < 2; i++)\<close>: \<open>output.suggestions[i]\<close> is
  read without a bounds check.
\<close>

definition write_suggestion :: "Suggestion list \<Rightarrow> nat \<Rightarrow> error + item list" where
  "write_suggestion sugg i =
     (if \<not> i < length sugg then Inl OutOfBounds
      else
        let suggestion = sugg ! i in
        Inr ([Str ''DrivingRoute'', Size (i + 1), Str '':''] @
             write_path (drivePath suggestion) @
             [Str '' ('', Num (wrap_int32 (totalTime suggestion - walkingTime_s suggestion)),
              Str '' min)\<newline>'',
              Str ''ParkingNode'', Size (i + 1), Str '':'', Num (parkingNode suggestion),
              Str '' \<newline>'',
              Str ''WalkingRoute1:''] @
             write_path (walkPath suggestion) @
             [Str '' ('', Num (walkingTime_s suggestion), Str '' min)'',
              Str ''(Exceeds by '', Num (exceedWalkingBy suggestion), Str '' min)\<newline>'',
              Str ''TotalTime'', Size (i + 1), Str '':'', Num (totalTime suggestion),
              Str ''\<newline>'']))"

primrec write_suggestions :: "Suggestion list \<Rightarrow> nat list \<Rightarrow> error + item list" where
  "write_suggestions sugg [] = Inr []"
| "write_suggestions sugg (i # is) =
     (case write_suggestion sugg i of
        Inl e \<Rightarrow> Inl e
      | Inr xs \<Rightarrow>
          (case write_suggestions sugg is of Inl e \<Rightarrow> Inl e | Inr ys \<Rightarrow> Inr (xs @ ys)))"

definition writeOutputFile :: "Output \<Rightarrow> error + item list" where
  "writeOutputFile output =
     (let head = [Str ''Source:'', Num (sourceId output), Str ''\<newline>'',
                  Str ''Destination:'', Num (destId output), Str ''\<newline>''];
          normal = (if TypeOfInput output = 0
                    then write_route ''BestDrivingRoute:'' (bestPath output) @
                         write_route ''AlternativeRoute:'' (altPath output)
                    else []);
          restricted = (if TypeOfInput output = 1
                        then write_route ''RestrictedDrivingRoute:'' (bestPath output)
                        else [])
      in
      if TypeOfInput output \<noteq> 2 then Inr (head @ normal @ restricted)
      else if fst (bestPath output) = [] \<and> fst (altPath output) = [] \<and>
              parkingNode_o output = - 1 \<and> \<not> hasSuggestions output
      then Inr (head @
             [Str ''DrivingRoute:none\<newline>'', Str ''ParkingNode:none\<newline>'',
              Str ''WalkingRoute:none\<newline>'', Str ''TotalTime:none\<newline>'',
              Str ''Message:No possible route with max walking time of '',
              Num (maxWalkingTime output), Str '' minutes.\<newline>''])
      else if \<not> hasSuggestions output
      then Inr (head @
             write_route ''DrivingRoute:'' (bestPath output) @
             [Str ''ParkingNode:'', Num (parkingNode_o output), Str ''\<newline>''] @
             write_route ''WalkingRoute:'' (altPath output) @
             [Str ''TotalTime:'', Num (totalTime_o output), Str ''\<newline>''])
      else
        (case write_suggestions (suggestions output) [0..<2] of
           Inl e \<Rightarrow> Inl e
         | Inr xs \<Rightarrow> Inr (head @ xs)))"

section \<open>A search changes only the transient state\<close>

text \<open>
  \<open>persistent\<close> forgets the transient search state of a location (parent and
  distance); two graphs are the same network when they agree on everything else.
\<close>

definition persistent :: "Location \<Rightarrow> Location" where
  "persistent loc = loc\<lparr>parent := None, distance := 0\<rparr>"

definition same_network :: "Graph \<Rightarrow> Graph \<Rightarrow> bool" where
  "same_network g g' = (map persistent g = map persistent g')"

lemma same_network_refl [simp]: "same_network g g"
  by (simp add: same_network_def)

lemma same_network_trans: "same_network g g' \<Longrightarrow> same_network g' g'' \<Longrightarrow> same_network g g''"
  by (simp add: same_network_def)

lemma same_network_sym: "same_network g g' \<Longrightarrow> same_network g' g"
  by (simp add: same_network_def)

lemma same_network_length: "same_network g g' \<Longrightarrow> length g = length g'"
  unfolding same_network_def by (rule map_eq_imp_length_eq)

lemma persistent_fields [simp]:
  "loc_id (persistent l) = loc_id l" "adj (persistent l) = adj l"
  "hasParking (persistent l) = hasParking l" "code (persistent l) = code l"
  by (simp_all add: persistent_def)

lemma persistent_update [simp]:
  "persistent (l\<lparr>parent := p\<rparr>) = persistent l"
  "persistent (l\<lparr>distance := d\<rparr>) = persistent l"
  by (simp_all add: persistent_def)

lemma same_network_nth:
  assumes "same_network g g'" "i < length g"
  shows "loc_id (g' ! i) = loc_id (g ! i)" "adj (g' ! i) = adj (g ! i)"
        "hasParking (g' ! i) = hasParking (g ! i)" "code (g' ! i) = code (g ! i)"
proof -
  have "map persistent g ! i = map persistent g' ! i"
    using assms(1) by (simp add: same_network_def)
  then have e: "persistent (g ! i) = persistent (g' ! i)"
    using assms same_network_length[OF assms(1)] by simp
  show "loc_id (g' ! i) = loc_id (g ! i)"
    using arg_cong[OF e, of loc_id] by simp
  show "adj (g' ! i) = adj (g ! i)"
    using arg_cong[OF e, of adj] by simp
  show "hasParking (g' ! i) = hasParking (g ! i)"
    using arg_cong[OF e, of hasParking] by simp
  show "code (g' ! i) = code (g ! i)"
    using arg_cong[OF e, of code] by simp
qed

lemma same_network_update:
  "same_network g (g[k := (g ! k)\<lparr>parent := p, distance := d\<rparr>])"
proof (cases "k < length g")
  case True
  then have "map persistent (g[k := (g ! k)\<lparr>parent := p, distance := d\<rparr>])
      = (map persistent g)[k := map persistent g ! k]"
    by (simp add: map_update)
  then show ?thesis by (simp add: same_network_def)
next
  case False
  then have "length g \<le> k" by simp
  then show ?thesis by (simp add: same_network_def list_update_beyond)
qed

lemma same_network_update_distance:
  "same_network g (g[k := (g ! k)\<lparr>distance := d\<rparr>])"
proof (cases "k < length g")
  case True
  then have "map persistent (g[k := (g ! k)\<lparr>distance := d\<rparr>])
      = (map persistent g)[k := map persistent g ! k]"
    by (simp add: map_update)
  then show ?thesis by (simp add: same_network_def)
next
  case False
  then have "length g \<le> k" by simp
  then show ?thesis by (simp add: same_network_def list_update_beyond)
qed

lemma same_network_init: "same_network g (init_locations g)"
  by (simp add: same_network_def init_locations_def persistent_def)

lemma init_locations_same_network:
  assumes "same_network g g'"
  shows "init_locations g' = init_locations g"
proof -
  have eq: "init_locations h = map (\<lambda>loc. loc\<lparr>parent := None, distance := INF_int\<rparr>) (map persistent h)" for h
    by (simp add: init_locations_def persistent_def)
  show ?thesis unfolding eq using assms unfolding same_network_def by (rule arg_cong[OF sym])
qed

lemma findLocation_same_network:
  "same_network g g' \<Longrightarrow> findLocation g' i = findLocation g i"
proof (induction g arbitrary: g')
  case Nil
  then show ?case by (simp add: same_network_def)
next
  case (Cons l ls)
  then obtain l' ls' where g': "g' = l' # ls'" by (cases g') (auto simp: same_network_def)
  with Cons.prems have e: "persistent l = persistent l'" and r: "same_network ls ls'"
    by (simp_all add: same_network_def)
  from arg_cong[OF e, of loc_id] have "loc_id l = loc_id l'" by simp
  then show ?case using Cons.IH[OF r] by (simp add: g')
qed

lemma relax_same_network: "same_network (fst s) (fst (relax isD bS cd cn s road))"
  by (auto simp: relax_def Let_def same_network_update)

lemma fold_relax_same_network:
  "same_network (fst s) (fst (fold (\<lambda>road s'. relax isD bS cd cn s' road) rs s))"
proof (induction rs arbitrary: s)
  case Nil show ?case by simp
next
  case (Cons r rs)
  show ?case using Cons.IH[of "relax isD bS cd cn s r"] relax_same_network[of s isD bS cd cn r]
    by (auto intro: same_network_trans)
qed

lemma dijkstra_step_same_network:
  "dijkstra_step isD bN bS s = Inr s' \<Longrightarrow> same_network (fst s) (fst s')"
  using fold_relax_same_network[of "(fst s, pq_pop (snd s))"]
  by (auto simp: dijkstra_step_def Let_def split: option.splits if_splits)

lemma dijkstra_loop_same_network:
  "dijkstra_loop isD bN bS s = Inr g' \<Longrightarrow> same_network (fst s) g'"
proof (induction isD bN bS s rule: dijkstra_loop.induct)
  case (1 isD bN bS s)
  show ?case
  proof (cases "snd s = []")
    case True
    with "1.prems" show ?thesis by simp
  next
    case False
    with "1.prems" obtain s' where st: "dijkstra_step isD bN bS s = Inr s'"
      and l: "dijkstra_loop isD bN bS s' = Inr g'"
      by (subst (asm) dijkstra_loop.simps) (auto split: sum.splits)
    from "1.IH"[OF False st l] dijkstra_step_same_network[OF st]
    show ?thesis by (rule same_network_trans[rotated])
  qed
qed

lemma dijkstra_search_same_network:
  assumes "dijkstra_search g s isD bN bS = Inr g'"
  shows "same_network g g'"
proof -
  from assms obtain k where k: "findLocation (init_locations g) s = Some k"
    and l: "dijkstra_loop isD bN bS ((init_locations g)[k := (init_locations g ! k)\<lparr>distance := 0\<rparr>], [(0, s)]) = Inr g'"
    by (auto simp: dijkstra_search_def Let_def split: option.splits)
  have "same_network (init_locations g) ((init_locations g)[k := (init_locations g ! k)\<lparr>distance := 0\<rparr>])"
    by (rule same_network_update_distance)
  with dijkstra_loop_same_network[OF l] same_network_init[of g]
  show ?thesis by (auto intro: same_network_trans)
qed

lemma dijkstra_search_transient:
  "same_network g g' \<Longrightarrow> dijkstra_search g' s isD bN bS = dijkstra_search g s isD bN bS"
  by (simp add: dijkstra_search_def init_locations_same_network)

lemma dijkstra_transient:
  "same_network g g' \<Longrightarrow> dijkstra g' s d isD bN bS = dijkstra g s d isD bN bS"
  by (simp add: dijkstra_def dijkstra_search_transient)

lemma dijkstra_same_network:
  assumes "dijkstra g s d isD bN bS = Some (Inr (r, g', bS'))"
  shows "same_network g g'"
  using assms dijkstra_search_same_network[of g s isD bN bS]
  by (auto simp: dijkstra_def Let_def split: sum.splits option.splits if_splits)

section \<open>The eco route leaves the caller's segments alone\<close>

lemma eco_iteration_avoidSegments:
  "eco_iteration s d mw aN st i = Some (Inr st') \<Longrightarrow> fst (snd st') = fst (snd st)"
  by (auto simp: eco_iteration_def Let_def split: if_splits option.splits sum.splits prod.splits)

lemma eco_loop_avoidSegments:
  "eco_loop s d mw aN is st = Some (Inr st') \<Longrightarrow> fst (snd st') = fst (snd st)"
proof (induction "is" arbitrary: st)
  case Nil
  then show ?case by simp
next
  case (Cons i "is")
  from Cons.prems obtain st1 where 1: "eco_iteration s d mw aN st i = Some (Inr st1)"
    and 2: "eco_loop s d mw aN is st1 = Some (Inr st')"
    by (auto split: option.splits sum.splits)
  from Cons.IH[OF 2] eco_iteration_avoidSegments[OF 1] show ?case by simp
qed

section \<open>Well-formed networks\<close>

text \<open>
  The data model: identifiers are unique, every road is stored in the adjacency list
  of its origin and points to a location of the graph.  \<open>edge_cost\<close> is the cost
  the search selects: the driving time when \<open>isDriving\<close> holds, the walking time
  otherwise.
\<close>

definition edge_cost :: "bool \<Rightarrow> Road \<Rightarrow> int" where
  "edge_cost isDriving road = (if isDriving then drivingTime road else walkingTime road)"

definition wf_graph :: "Graph \<Rightarrow> bool" where
  "wf_graph g =
     (distinct (map loc_id g) \<and>
      list_all (\<lambda>i. list_all (\<lambda>r. origin r = i \<and> destination r < length g) (adj (g ! i)))
        [0..<length g])"

lemma wf_graph_road:
  "wf_graph g \<Longrightarrow> i < length g \<Longrightarrow> r \<in> set (adj (g ! i)) \<Longrightarrow>
     origin r = i \<and> destination r < length g"
  by (auto simp: wf_graph_def list_all_iff)

lemma wf_graph_distinct: "wf_graph g \<Longrightarrow> distinct (map loc_id g)"
  by (simp add: wf_graph_def)

lemma same_network_ids: "same_network g g' \<Longrightarrow> map loc_id g' = map loc_id g"
proof -
  assume a: "same_network g g'"
  have "map loc_id h = map loc_id (map persistent h)" for h by simp
  then show ?thesis using a unfolding same_network_def by metis
qed

lemma wf_graph_same_network:
  assumes "wf_graph g" "same_network g g'"
  shows "wf_graph g'"
proof -
  have l: "length g' = length g" using same_network_length[OF assms(2)] by simp
  have "adj (g' ! i) = adj (g ! i)" if "i < length g" for i
    using same_network_nth(2)[OF assms(2) that] .
  then show ?thesis using assms(1) same_network_ids[OF assms(2)] l
    by (auto simp: wf_graph_def list_all_iff)
qed

lemma findLocation_Some:
  "findLocation g i = Some u \<Longrightarrow> u < length g \<and> loc_id (g ! u) = i"
  by (induction g arbitrary: u) (auto split: if_splits)

lemma findLocation_None: "findLocation g i = None \<Longrightarrow> i \<notin> loc_id ` set g"
  by (induction g) (auto split: if_splits)

lemma findLocation_distinct:
  "distinct (map loc_id g) \<Longrightarrow> u < length g \<Longrightarrow> findLocation g (loc_id (g ! u)) = Some u"
proof (induction g arbitrary: u)
  case Nil then show ?case by simp
next
  case (Cons l ls)
  show ?case
  proof (cases u)
    case 0 then show ?thesis by simp
  next
    case (Suc u')
    with Cons.prems have "u' < length ls" "loc_id (ls ! u') \<noteq> loc_id l"
      by (auto simp: image_iff) (metis nth_mem)
    with Cons.IH[of u'] Cons.prems Suc show ?thesis by simp
  qed
qed

section \<open>What every search maintains\<close>

text \<open>
  Facts that hold throughout the main loop whatever the costs are: distances never
  exceed \<open>INF\<close>; a parent reference of a location is a road of the network that
  ends in the location, was usable and not blocked when it was relaxed, and starts at a
  location that is not blocked and has a finite distance; every location with a finite
  distance other than the source has a parent; every queue entry names a location.
\<close>

definition parent_ok ::
  "bool \<Rightarrow> int set \<Rightarrow> (int \<times> int) set \<Rightarrow> Graph \<Rightarrow> nat \<Rightarrow> Road \<Rightarrow> bool" where
  "parent_ok isD bN bS g v r =
     (destination r = v \<and> origin r < length g \<and> r \<in> set (adj (g ! origin r)) \<and>
      edge_cost isD r \<noteq> INF_int \<and>
      (loc_id (g ! origin r), loc_id (g ! v)) \<notin> bS \<and>
      loc_id (g ! origin r) \<notin> bN \<and>
      distance (g ! origin r) < INF_int)"

definition search_inv ::
  "bool \<Rightarrow> int set \<Rightarrow> (int \<times> int) set \<Rightarrow> nat \<Rightarrow> Graph \<times> (int \<times> int) list \<Rightarrow> bool" where
  "search_inv isD bN bS src st =
     (wf_graph (fst st) \<and> src < length (fst st) \<and>
      (\<forall>v<length (fst st). distance (fst st ! v) \<le> INF_int) \<and>
      (\<forall>v<length (fst st). \<forall>r. parent (fst st ! v) = Some r \<longrightarrow>
           parent_ok isD bN bS (fst st) v r) \<and>
      (\<forall>v<length (fst st). distance (fst st ! v) < INF_int \<longrightarrow> v \<noteq> src \<longrightarrow>
           parent (fst st ! v) \<noteq> None) \<and>
      (\<forall>e\<in>set (snd st). fst e < INF_int \<and>
           (\<exists>u<length (fst st). loc_id (fst st ! u) = snd e \<and> distance (fst st ! u) \<le> fst e)))"

lemma relax_eq:
  "relax isD bS cd cn (g, pq) r =
     (if edge_cost isD r \<noteq> INF_int \<and> destination r < length g \<and>
         (cn, loc_id (g ! destination r)) \<notin> bS \<and>
         wrap_int32 (cd + edge_cost isD r) < distance (g ! destination r)
      then (g[destination r := (g ! destination r)\<lparr>parent := Some r,
               distance := wrap_int32 (cd + edge_cost isD r)\<rparr>],
            pq @ [(wrap_int32 (cd + edge_cost isD r), loc_id (g ! destination r))])
      else (g, pq))"
  by (simp add: relax_def Let_def edge_cost_def)

lemma relax_cases:
  obtains (same) "relax isD bS cd cn (g, pq) r = (g, pq)"
  | (update) "edge_cost isD r \<noteq> INF_int" "destination r < length g"
      "(cn, loc_id (g ! destination r)) \<notin> bS"
      "wrap_int32 (cd + edge_cost isD r) < distance (g ! destination r)"
      "relax isD bS cd cn (g, pq) r =
         (g[destination r := (g ! destination r)\<lparr>parent := Some r,
               distance := wrap_int32 (cd + edge_cost isD r)\<rparr>],
          pq @ [(wrap_int32 (cd + edge_cost isD r), loc_id (g ! destination r))])"
proof (cases "edge_cost isD r \<noteq> INF_int \<and> destination r < length g \<and>
         (cn, loc_id (g ! destination r)) \<notin> bS \<and>
         wrap_int32 (cd + edge_cost isD r) < distance (g ! destination r)")
  case True
  then show ?thesis using update by (simp add: relax_eq)
next
  case False
  then have "relax isD bS cd cn (g, pq) r = (g, pq)" by (simp only: relax_eq if_False)
  then show ?thesis by (rule same)
qed

lemma search_inv_relax:
  assumes inv: "search_inv isD bN bS src (g, pq)"
    and u: "u < length g" "loc_id (g ! u) = cn" "cn \<notin> bN" "distance (g ! u) \<le> cd" "cd < INF_int"
    and r: "r \<in> set (adj (g ! u))"
  shows "search_inv isD bN bS src (relax isD bS cd cn (g, pq) r)"
proof (cases rule: relax_cases[of isD bS cd cn g pq r])
  case same
  then show ?thesis using inv by simp
next
  case update
  define k where "k = destination r"
  define nd where "nd = wrap_int32 (cd + edge_cost isD r)"
  define g' where "g' = g[k := (g ! k)\<lparr>parent := Some r, distance := nd\<rparr>]"
  have rel: "relax isD bS cd cn (g, pq) r = (g', pq @ [(nd, loc_id (g ! k))])"
    using update(5) by (simp add: k_def nd_def g'_def)
  have k: "k < length g" using update(2) by (simp add: k_def)
  have lt: "nd < distance (g ! k)" using update(4) by (simp add: k_def nd_def)
  from inv have wf: "wf_graph g" and src: "src < length g"
    and d_le: "\<And>v. v < length g \<Longrightarrow> distance (g ! v) \<le> INF_int"
    and par: "\<And>v r. v < length g \<Longrightarrow> parent (g ! v) = Some r \<Longrightarrow> parent_ok isD bN bS g v r"
    and reach: "\<And>v. v < length g \<Longrightarrow> distance (g ! v) < INF_int \<Longrightarrow> v \<noteq> src \<Longrightarrow> parent (g ! v) \<noteq> None"
    and pqi: "\<And>e. e \<in> set pq \<Longrightarrow> fst e < INF_int \<and> (\<exists>u<length g. loc_id (g ! u) = snd e \<and> distance (g ! u) \<le> fst e)"
    by (auto simp: search_inv_def)
  have nd_inf: "nd < INF_int" using lt d_le[OF k] by simp
  have or: "origin r = u" using wf_graph_road[OF wf u(1) r] by simp
  have sn: "same_network g g'" unfolding g'_def by (rule same_network_update)
  have len: "length g' = length g" by (simp add: g'_def)
  have ids: "loc_id (g' ! v) = loc_id (g ! v)" if "v < length g" for v
    using same_network_nth(1)[OF sn that] .
  have adjs: "adj (g' ! v) = adj (g ! v)" if "v < length g" for v
    using same_network_nth(2)[OF sn that] .
  have dist': "distance (g' ! v) = (if v = k then nd else distance (g ! v))" if "v < length g" for v
    using that by (simp add: g'_def nth_list_update)
  have par': "parent (g' ! v) = (if v = k then Some r else parent (g ! v))" if "v < length g" for v
    using that by (simp add: g'_def nth_list_update)
  have dist_mono: "distance (g' ! v) \<le> distance (g ! v)" if "v < length g" for v
    using dist'[OF that] lt by simp
  have 1: "wf_graph g'" using wf sn by (rule wf_graph_same_network)
  have 3: "distance (g' ! v) \<le> INF_int" if "v < length g" for v
    using dist_mono[OF that] d_le[OF that] by simp
  have 4: "parent_ok isD bN bS g' v r'" if v: "v < length g" and p: "parent (g' ! v) = Some r'" for v r'
  proof (cases "v = k")
    case True
    with p v have [simp]: "r' = r" by (simp add: par')
    have "distance (g' ! u) < INF_int" using dist_mono[OF u(1)] u(4,5) by simp
    then show ?thesis using True u r or update(1,3) k
      by (simp add: parent_ok_def len ids adjs k_def)
  next
    case False
    with p v have "parent (g ! v) = Some r'" by (simp add: par')
    from par[OF v this] have ok: "parent_ok isD bN bS g v r'" .
    then have o: "origin r' < length g" by (simp add: parent_ok_def)
    have "distance (g' ! origin r') < INF_int"
      using dist_mono[OF o] ok by (simp add: parent_ok_def)
    with ok o v show ?thesis by (simp add: parent_ok_def len ids adjs)
  qed
  have 5: "parent (g' ! v) \<noteq> None" if v: "v < length g" and "distance (g' ! v) < INF_int" "v \<noteq> src" for v
    using that reach[of v] by (auto simp: par' dist' split: if_splits)
  have 6: "fst e < INF_int \<and> (\<exists>u<length g. loc_id (g' ! u) = snd e \<and> distance (g' ! u) \<le> fst e)"
    if "e \<in> set (pq @ [(nd, loc_id (g ! k))])" for e
  proof (cases "e \<in> set pq")
    case True
    from pqi[OF this] obtain w where "fst e < INF_int" "w < length g" "loc_id (g ! w) = snd e" "distance (g ! w) \<le> fst e"
      by auto
    with dist_mono[of w] show ?thesis by (auto simp: ids intro!: exI[of _ w])
  next
    case False
    with that have e: "e = (nd, loc_id (g ! k))" by simp
    show ?thesis using k nd_inf by (auto simp: e ids dist' intro!: exI[of _ k])
  qed
  show ?thesis unfolding rel search_inv_def
    using 1 src 3 4 5 6 by (simp add: len)
qed

lemma relax_distance_mono:
  "v < length g \<Longrightarrow> distance (fst (relax isD bS cd cn (g, pq) r) ! v) \<le> distance (g ! v)"
  by (cases rule: relax_cases[of isD bS cd cn g pq r]) (auto simp: nth_list_update)

lemma search_inv_fold:
  assumes "search_inv isD bN bS src (g, pq)"
    and "u < length g" "loc_id (g ! u) = cn" "cn \<notin> bN" "distance (g ! u) \<le> cd" "cd < INF_int"
    and "set rs \<subseteq> set (adj (g ! u))"
  shows "search_inv isD bN bS src (fold (\<lambda>road s'. relax isD bS cd cn s' road) rs (g, pq))"
  using assms
proof (induction rs arbitrary: g pq)
  case Nil
  then show ?case by simp
next
  case (Cons r rs)
  obtain g' pq' where rel: "relax isD bS cd cn (g, pq) r = (g', pq')"
    by (cases "relax isD bS cd cn (g, pq) r")
  have r: "r \<in> set (adj (g ! u))" using Cons.prems(7) by simp
  have inv': "search_inv isD bN bS src (g', pq')"
    using search_inv_relax[OF Cons.prems(1-6) r] by (simp add: rel)
  have sn: "same_network g g'" using relax_same_network[of "(g, pq)" isD bS cd cn r] by (simp add: rel)
  have u': "u < length g'" using Cons.prems(2) same_network_length[OF sn] by simp
  have id': "loc_id (g' ! u) = cn" using same_network_nth(1)[OF sn Cons.prems(2)] Cons.prems(3) by simp
  have adj': "adj (g' ! u) = adj (g ! u)" using same_network_nth(2)[OF sn Cons.prems(2)] .
  have d': "distance (g' ! u) \<le> cd"
    using relax_distance_mono[OF Cons.prems(2), of isD bS cd cn pq r] Cons.prems(5) by (simp add: rel)
  have "search_inv isD bN bS src (fold (\<lambda>road s'. relax isD bS cd cn s' road) rs (g', pq'))"
    using Cons.IH[OF inv' u' id' Cons.prems(4) d' Cons.prems(6)] Cons.prems(7) by (simp add: adj')
  then show ?case by (simp add: rel)
qed

lemma set_pq_pop: "set (pq_pop pq) \<subseteq> set pq"
  by (simp add: pq_pop_def set_remove1_subset)

lemma search_inv_pop: "search_inv isD bN bS src (g, pq) \<Longrightarrow> search_inv isD bN bS src (g, pq_pop pq)"
  using set_pq_pop[of pq] by (auto simp: search_inv_def)

lemma search_inv_top:
  assumes "search_inv isD bN bS src (g, pq)" "pq \<noteq> []"
  obtains u where "findLocation g (snd (pq_top pq)) = Some u" "u < length g"
    "loc_id (g ! u) = snd (pq_top pq)" "distance (g ! u) \<le> fst (pq_top pq)"
    "fst (pq_top pq) < INF_int"
proof -
  from assms obtain u where u: "fst (pq_top pq) < INF_int" "u < length g"
    "loc_id (g ! u) = snd (pq_top pq)" "distance (g ! u) \<le> fst (pq_top pq)"
    using pq_top_in[OF assms(2)] by (auto simp: search_inv_def)
  from assms(1) have "distinct (map loc_id g)" by (simp add: search_inv_def wf_graph_distinct)
  from findLocation_distinct[OF this u(2)] u(3)
  have "findLocation g (snd (pq_top pq)) = Some u" by simp
  with u show ?thesis using that by blast
qed

lemma search_inv_step:
  assumes "search_inv isD bN bS src s" "snd s \<noteq> []"
  shows "\<exists>s'. dijkstra_step isD bN bS s = Inr s' \<and> search_inv isD bN bS src s'"
proof -
  obtain g pq where s: "s = (g, pq)" by (cases s)
  from assms have inv: "search_inv isD bN bS src (g, pq)" and ne: "pq \<noteq> []" by (simp_all add: s)
  from search_inv_top[OF inv ne] obtain u where u:
    "findLocation g (snd (pq_top pq)) = Some u" "u < length g"
    "loc_id (g ! u) = snd (pq_top pq)" "distance (g ! u) \<le> fst (pq_top pq)"
    "fst (pq_top pq) < INF_int" by blast
  show ?thesis
  proof (cases "fst (pq_top pq) > distance (g ! u) \<or> snd (pq_top pq) \<in> bN")
    case True
    then have "dijkstra_step isD bN bS s = Inr (g, pq_pop pq)"
      using u(1) by (auto simp: dijkstra_step_def s Let_def)
    then show ?thesis using search_inv_pop[OF inv] by simp
  next
    case False
    then have st: "dijkstra_step isD bN bS s =
        Inr (fold (\<lambda>road s'. relax isD bS (fst (pq_top pq)) (snd (pq_top pq)) s' road)
               (adj (g ! u)) (g, pq_pop pq))"
      using u(1) by (auto simp: dijkstra_step_def s Let_def)
    have "search_inv isD bN bS src
        (fold (\<lambda>road s'. relax isD bS (fst (pq_top pq)) (snd (pq_top pq)) s' road)
               (adj (g ! u)) (g, pq_pop pq))"
      using False u by (intro search_inv_fold[OF search_inv_pop[OF inv] u(2,3)]) auto
    with st show ?thesis by simp
  qed
qed

lemma search_inv_loop:
  assumes "search_inv isD bN bS src s"
  shows "\<exists>g'. dijkstra_loop isD bN bS s = Inr g' \<and> search_inv isD bN bS src (g', [])"
  using assms
proof (induction isD bN bS s rule: dijkstra_loop.induct)
  case (1 isD bN bS s)
  show ?case
  proof (cases "snd s = []")
    case True
    then have "dijkstra_loop isD bN bS s = Inr (fst s)" by simp
    moreover have "search_inv isD bN bS src (fst s, [])" using "1.prems" True
      by (simp add: search_inv_def)
    ultimately show ?thesis by simp
  next
    case False
    from search_inv_step[OF "1.prems" False] obtain s' where
      st: "dijkstra_step isD bN bS s = Inr s'" and inv': "search_inv isD bN bS src s'" by blast
    from "1.IH"[OF False st inv'] obtain g' where
      "dijkstra_loop isD bN bS s' = Inr g'" "search_inv isD bN bS src (g', [])" by blast
    moreover have "dijkstra_loop isD bN bS s = dijkstra_loop isD bN bS s'"
      using False st by (subst dijkstra_loop.simps) simp
    ultimately show ?thesis by simp
  qed
qed

lemma length_init_locations [simp]: "length (init_locations g) = length g"
  by (simp add: init_locations_def)

lemma init_locations_nth:
  "v < length g \<Longrightarrow> init_locations g ! v = (g ! v)\<lparr>parent := None, distance := INF_int\<rparr>"
  by (simp add: init_locations_def)

lemma search_inv_init:
  assumes wf: "wf_graph g" and f: "findLocation g sId = Some src"
  shows "search_inv isD bN bS src
           ((init_locations g)[src := (init_locations g ! src)\<lparr>distance := 0\<rparr>], [(0, sId)])"
proof -
  let ?g0 = "init_locations g"
  let ?g1 = "?g0[src := (?g0 ! src)\<lparr>distance := 0\<rparr>]"
  from findLocation_Some[OF f] have src: "src < length g" "loc_id (g ! src) = sId" by simp_all
  have sn: "same_network g ?g1"
    using same_network_init[of g] same_network_update_distance[of ?g0 src 0]
    by (rule same_network_trans)
  have len: "length ?g1 = length g" by (simp add: init_locations_def)
  have wf1: "wf_graph ?g1" using wf sn by (rule wf_graph_same_network)
  have d: "distance (?g1 ! v) = (if v = src then 0 else INF_int)" if "v < length g" for v
    using that src(1) by (auto simp: nth_list_update init_locations_nth)
  have p: "parent (?g1 ! v) = None" if "v < length g" for v
    using that src(1) by (auto simp: nth_list_update init_locations_nth)
  have i: "loc_id (?g1 ! src) = sId" using same_network_nth(1)[OF sn src(1)] src(2) by simp
  show ?thesis unfolding search_inv_def
    using wf1 src(1) i by (auto simp: len d p INF_int_def intro!: exI[of _ src])
qed

lemma dijkstra_search_inv:
  assumes wf: "wf_graph g" and f: "findLocation g sId = Some src"
  shows "\<exists>g'. dijkstra_search g sId isD bN bS = Inr g' \<and> search_inv isD bN bS src (g', [])
           \<and> same_network g g'"
proof -
  have f0: "findLocation (init_locations g) sId = Some src"
    using findLocation_same_network[OF same_network_init[of g], of sId] f by simp
  from search_inv_loop[OF search_inv_init[OF wf f, of isD bN bS]] obtain g' where
    l: "dijkstra_loop isD bN bS
          ((init_locations g)[src := (init_locations g ! src)\<lparr>distance := 0\<rparr>], [(0, sId)]) = Inr g'"
    and inv: "search_inv isD bN bS src (g', [])" by blast
  have s: "dijkstra_search g sId isD bN bS = Inr g'"
    using f0 l by (simp add: dijkstra_search_def Let_def)
  from dijkstra_search_same_network[OF s] s inv show ?thesis by simp
qed

section \<open>Path reconstruction\<close>

text \<open>
  \<open>parent_chain g sId cur rs\<close>: starting at \<open>cur\<close>, the reconstruction loop
  traverses the roads \<open>rs\<close> (each the parent reference of the location reached so
  far) and then stops.  The loop returns exactly when there is such a chain.
\<close>

inductive parent_chain :: "Graph \<Rightarrow> int \<Rightarrow> nat \<Rightarrow> Road list \<Rightarrow> bool"
  for g :: Graph and sId :: int where
  stop: "parent (g ! cur) = None \<or> loc_id (g ! cur) = sId \<Longrightarrow> parent_chain g sId cur []"
| step: "parent (g ! cur) = Some r \<Longrightarrow> loc_id (g ! cur) \<noteq> sId \<Longrightarrow>
         parent_chain g sId (origin r) rs \<Longrightarrow> parent_chain g sId cur (r # rs)"

definition road_pair :: "Graph \<Rightarrow> Road \<Rightarrow> int \<times> int" where
  "road_pair g r = (loc_id (g ! origin r), loc_id (g ! destination r))"

lemma reconstruct_chain:
  "parent_chain g sId cur rs \<Longrightarrow>
     reconstruct g sId cur path bS =
       Some (path @ map (\<lambda>r. loc_id (g ! origin r)) rs, bS \<union> set (map (road_pair g) rs))"
proof (induction arbitrary: path bS rule: parent_chain.induct)
  case (stop cur)
  then show ?case by (subst reconstruct.simps) (auto split: option.splits)
next
  case (step cur r rs)
  show ?case
    by (subst reconstruct.simps) (simp add: step road_pair_def)
qed

lemma reconstruct_Some:
  assumes "reconstruct g sId cur path bS = Some y"
  shows "\<exists>rs. parent_chain g sId cur rs \<and>
           y = (path @ map (\<lambda>r. loc_id (g ! origin r)) rs, bS \<union> set (map (road_pair g) rs))"
proof (rule reconstruct.raw_induct[where P = "\<lambda>g sId cur path bS y. \<exists>rs. parent_chain g sId cur rs \<and>
           y = (path @ map (\<lambda>r. loc_id (g ! origin r)) rs, bS \<union> set (map (road_pair g) rs))", OF _ assms], goal_cases)
  case (1 reconstruct g sId cur path bS y)
  show ?case
  proof (cases "parent (g ! cur)")
    case None
    with 1(2) have "y = (path, bS)" by simp
    with None show ?thesis by (auto intro!: exI[of _ "[]"] parent_chain.stop)
  next
    case (Some r)
    show ?thesis
    proof (cases "loc_id (g ! cur) = sId")
      case True
      with Some 1(2) have "y = (path, bS)" by simp
      with True show ?thesis by (auto intro!: exI[of _ "[]"] parent_chain.stop)
    next
      case False
      with Some 1(2) have "reconstruct g sId (origin r) (path @ [loc_id (g ! origin r)])
          (insert (loc_id (g ! origin r), loc_id (g ! destination r)) bS) = Some y" by simp
      from 1(1)[OF this] obtain rs where rs: "parent_chain g sId (origin r) rs"
        "y = ((path @ [loc_id (g ! origin r)]) @ map (\<lambda>r. loc_id (g ! origin r)) rs,
              insert (loc_id (g ! origin r), loc_id (g ! destination r)) bS \<union> set (map (road_pair g) rs))"
        by blast
      have "parent_chain g sId cur (r # rs)" using Some False rs(1) by (rule parent_chain.step)
      moreover have "y = (path @ map (\<lambda>r. loc_id (g ! origin r)) (r # rs), bS \<union> set (map (road_pair g) (r # rs)))"
        using rs(2) by (simp add: road_pair_def)
      ultimately show ?thesis by blast
    qed
  qed
qed

text \<open>The pairs of consecutive elements of a path.\<close>

definition path_edges :: "int list \<Rightarrow> (int \<times> int) list" where
  "path_edges p = zip p (tl p)"

lemma path_edges_snoc:
  "path_edges (xs @ [x]) = (if xs = [] then [] else path_edges xs @ [(last xs, x)])"
proof (induction xs)
  case Nil
  show ?case by (simp add: path_edges_def)
next
  case (Cons a xs)
  then show ?case by (cases xs) (auto simp: path_edges_def)
qed

lemma path_edges_Cons2: "path_edges (a # b # xs) = (a, b) # path_edges (b # xs)"
  by (simp add: path_edges_def)

lemma path_edges_rev_Cons:
  "set (path_edges (rev (a # b # xs))) = insert (b, a) (set (path_edges (rev (b # xs))))"
  using path_edges_snoc[of "rev xs @ [b]" a] by simp

text \<open>
  \<open>road_between g isD (a, b)\<close>: the network has a road from the location with
  identifier \<open>a\<close> to a location with identifier \<open>b\<close> whose selected cost is not
  \<open>INF\<close>.
\<close>

definition road_between :: "Graph \<Rightarrow> bool \<Rightarrow> int \<times> int \<Rightarrow> bool" where
  "road_between g isD e =
     list_ex (\<lambda>l. loc_id l = fst e \<and>
        list_ex (\<lambda>r. edge_cost isD r \<noteq> INF_int \<and> destination r < length g \<and>
                      loc_id (g ! destination r) = snd e) (adj l)) g"

lemma road_betweenI:
  "u < length g \<Longrightarrow> r \<in> set (adj (g ! u)) \<Longrightarrow> edge_cost isD r \<noteq> INF_int \<Longrightarrow>
   destination r < length g \<Longrightarrow> road_between g isD (loc_id (g ! u), loc_id (g ! destination r))"
  unfolding road_between_def list_ex_iff by (auto intro!: bexI[of _ "g ! u"] bexI[of _ r])

lemma road_between_same_network:
  assumes "same_network g g'" "road_between g' isD e"
  shows "road_between g isD e"
proof -
  have len: "length g' = length g" using same_network_length[OF assms(1)] by simp
  from assms(2) obtain l r where l: "l \<in> set g'" "loc_id l = fst e" "r \<in> set (adj l)"
    "edge_cost isD r \<noteq> INF_int" "destination r < length g'" "loc_id (g' ! destination r) = snd e"
    by (auto simp: road_between_def list_ex_iff)
  from l(1) obtain u where u: "u < length g'" "g' ! u = l" by (auto simp: in_set_conv_nth)
  have "road_between g isD (loc_id (g ! u), loc_id (g ! destination r))"
    using u l same_network_nth[OF assms(1), of u] len
    by (intro road_betweenI) auto
  moreover have "loc_id (g ! u) = fst e" "loc_id (g ! destination r) = snd e"
    using u l same_network_nth(1)[OF assms(1), of u] same_network_nth(1)[OF assms(1), of "destination r"] len
    by auto
  ultimately show ?thesis by (cases e) simp
qed

definition chain_ids :: "Graph \<Rightarrow> nat \<Rightarrow> Road list \<Rightarrow> int list" where
  "chain_ids g cur rs = loc_id (g ! cur) # map (\<lambda>r. loc_id (g ! origin r)) rs"

lemma chain_sound:
  assumes inv: "search_inv isD bN bS src (g, pq)" and src: "loc_id (g ! src) = sId"
    and "parent_chain g sId cur rs" and "cur < length g" and "distance (g ! cur) < INF_int"
  shows "last (chain_ids g cur rs) = sId
       \<and> set (path_edges (rev (chain_ids g cur rs))) = set (map (road_pair g) rs)
       \<and> (\<forall>r\<in>set rs. road_pair g r \<notin> bS \<and> fst (road_pair g r) \<notin> bN \<and>
              road_between g isD (road_pair g r))"
  using assms(3-5)
proof (induction rule: parent_chain.induct)
  case (stop cur)
  from inv have "distinct (map loc_id g)" "src < length g"
    and reach: "\<And>v. v < length g \<Longrightarrow> distance (g ! v) < INF_int \<Longrightarrow> v \<noteq> src \<Longrightarrow> parent (g ! v) \<noteq> None"
    by (auto simp: search_inv_def wf_graph_distinct)
  have "loc_id (g ! cur) = sId"
  proof (cases "loc_id (g ! cur) = sId")
    case False
    with stop have "parent (g ! cur) = None" by simp
    with reach[OF stop(2,3)] have "cur = src" by auto
    with src show ?thesis by simp
  qed simp
  then show ?case by (simp add: chain_ids_def path_edges_def)
next
  case (step cur r rs)
  from inv step(1,5) have ok: "parent_ok isD bN bS g cur r" by (auto simp: search_inv_def)
  then have o: "origin r < length g" "distance (g ! origin r) < INF_int" "destination r = cur"
    by (simp_all add: parent_ok_def)
  from step.IH[OF o(1,2)] have IH: "last (chain_ids g (origin r) rs) = sId"
    "set (path_edges (rev (chain_ids g (origin r) rs))) = set (map (road_pair g) rs)"
    "\<forall>r\<in>set rs. road_pair g r \<notin> bS \<and> fst (road_pair g r) \<notin> bN \<and> road_between g isD (road_pair g r)"
    by simp_all
  have c: "chain_ids g cur (r # rs) = loc_id (g ! cur) # chain_ids g (origin r) rs"
    by (simp add: chain_ids_def)
  have rp: "road_pair g r = (loc_id (g ! origin r), loc_id (g ! cur))"
    by (simp add: road_pair_def o(3))
  have 1: "last (chain_ids g cur (r # rs)) = sId" using IH(1) by (simp add: c chain_ids_def)
  have 2: "set (path_edges (rev (chain_ids g cur (r # rs)))) = set (map (road_pair g) (r # rs))"
    using IH(2) path_edges_rev_Cons[of "loc_id (g ! cur)" "loc_id (g ! origin r)" "map (\<lambda>r. loc_id (g ! origin r)) rs"]
    by (simp add: c rp) (simp add: chain_ids_def)
  have "road_between g isD (loc_id (g ! origin r), loc_id (g ! destination r))"
    using ok step(5) by (intro road_betweenI) (auto simp: parent_ok_def)
  then have 3: "road_pair g r \<notin> bS \<and> fst (road_pair g r) \<notin> bN \<and> road_between g isD (road_pair g r)"
    using ok by (simp add: road_pair_def parent_ok_def)
  show ?case using 1 2 3 IH(3) by simp
qed

lemma chain_ids_simps [simp]:
  "chain_ids g cur rs \<noteq> []" "hd (chain_ids g cur rs) = loc_id (g ! cur)"
  by (simp_all add: chain_ids_def)

lemma dijkstra_returns:
  assumes wf: "wf_graph g" and res: "dijkstra g s d isD bN bS = Some (Inr ((p, c), g', bS'))"
  obtains (nopath) "p = []" "c = 0" "bS' = bS" "same_network g g'"
  | (path) src dst rs where
      "findLocation g s = Some src" "findLocation g' d = Some dst"
      "search_inv isD bN bS src (g', [])" "same_network g g'"
      "parent_chain g' s dst rs" "p = rev (chain_ids g' dst rs)"
      "bS' = bS \<union> set (map (road_pair g') rs)" "c = distance (g' ! dst)" "c \<noteq> INF_int"
proof -
  from res obtain g2 where s2: "dijkstra_search g s isD bN bS = Inr g2"
    by (auto simp: dijkstra_def split: sum.splits)
  then obtain src where src: "findLocation g s = Some src"
    using findLocation_same_network[OF same_network_init[of g], of s]
    by (auto simp: dijkstra_search_def Let_def split: option.splits)
  from dijkstra_search_inv[OF wf src, of isD bN bS] s2
  have inv: "search_inv isD bN bS src (g2, [])" and sn: "same_network g g2" by auto
  from res s2 obtain dst where dst: "findLocation g2 d = Some dst"
    by (auto simp: dijkstra_def split: option.splits)
  show ?thesis
  proof (cases "distance (g2 ! dst) = INF_int")
    case True
    with res s2 dst have "p = []" "c = 0" "bS' = bS" "g' = g2"
      by (auto simp: dijkstra_def Let_def)
    with sn show ?thesis using nopath by simp
  next
    case False
    with res s2 dst obtain path where
      rc: "reconstruct g2 s dst [loc_id (g2 ! dst)] bS = Some (path, bS')"
      and e: "p = rev path" "c = distance (g2 ! dst)" "g' = g2"
      by (auto simp: dijkstra_def Let_def split: option.splits)
    from reconstruct_Some[OF rc] obtain rs where rs: "parent_chain g2 s dst rs"
      "path = [loc_id (g2 ! dst)] @ map (\<lambda>r. loc_id (g2 ! origin r)) rs"
      "bS' = bS \<union> set (map (road_pair g2) rs)" by auto
    show ?thesis using path[of src dst rs] src dst inv sn rs e False
      by (simp add: chain_ids_def)
  qed
qed

lemma dijkstra_path_sound:
  assumes wf: "wf_graph g" and res: "dijkstra g s d isD bN bS = Some (Inr ((p, c), g', bS'))"
    and ne: "p \<noteq> []"
  shows "hd p = s" "last p = d" "bS' = bS \<union> set (path_edges p)"
    "\<And>e. e \<in> set (path_edges p) \<Longrightarrow> e \<notin> bS \<and> fst e \<notin> bN \<and> road_between g isD e"
    "c \<noteq> INF_int"
proof -
  from wf res have "hd p = s \<and> last p = d \<and> bS' = bS \<union> set (path_edges p) \<and>
     (\<forall>e\<in>set (path_edges p). e \<notin> bS \<and> fst e \<notin> bN \<and> road_between g isD e) \<and> c \<noteq> INF_int"
  proof (cases rule: dijkstra_returns)
    case nopath
    with ne show ?thesis by simp
  next
    case (path src dst rs)
    from findLocation_Some[OF path(2)] have dst: "dst < length g'" "loc_id (g' ! dst) = d" by simp_all
    from findLocation_Some[OF path(1)] have src: "src < length g" "loc_id (g ! src) = s" by simp_all
    have src': "loc_id (g' ! src) = s" using same_network_nth(1)[OF path(4) src(1)] src(2) by simp
    have fin: "distance (g' ! dst) < INF_int"
      using path(3,8,9) dst(1) by (auto simp: search_inv_def dest!: spec[of _ dst])
    from chain_sound[OF path(3) src' path(5) dst(1) fin]
    have cs: "last (chain_ids g' dst rs) = s"
      "set (path_edges (rev (chain_ids g' dst rs))) = set (map (road_pair g') rs)"
      "\<forall>r\<in>set rs. road_pair g' r \<notin> bS \<and> fst (road_pair g' r) \<notin> bN \<and> road_between g' isD (road_pair g' r)"
      by simp_all
    have 1: "hd p = s" using cs(1) path(6) by (simp add: hd_rev)
    have 2: "last p = d" using path(6) dst(2) by (simp add: last_rev)
    have 3: "bS' = bS \<union> set (path_edges p)" using path(6,7) cs(2) by simp
    have 4: "\<forall>e\<in>set (path_edges p). e \<notin> bS \<and> fst e \<notin> bN \<and> road_between g isD e"
      using cs(2,3) path(6) road_between_same_network[OF path(4)] by auto
    show ?thesis using 1 2 3 4 path(9) by simp
  qed
  then show "hd p = s" "last p = d" "bS' = bS \<union> set (path_edges p)"
    "\<And>e. e \<in> set (path_edges p) \<Longrightarrow> e \<notin> bS \<and> fst e \<notin> bN \<and> road_between g isD e"
    "c \<noteq> INF_int" by auto
qed

section \<open>Routes\<close>

text \<open>
  \<open>route_avoiding g isD bN blocked s d p\<close>: \<open>p\<close> is a route from \<open>s\<close> to
  \<open>d\<close> along roads of the network that are usable in the mode \<open>isD\<close>, none of them in
  \<open>blocked\<close>, none of them leaving a location of \<open>bN\<close>.
\<close>

definition route_avoiding ::
  "Graph \<Rightarrow> bool \<Rightarrow> int set \<Rightarrow> (int \<times> int) set \<Rightarrow> int \<Rightarrow> int \<Rightarrow> int list \<Rightarrow> bool" where
  "route_avoiding g isD bN blocked s d p =
     (p \<noteq> [] \<and> hd p = s \<and> last p = d \<and>
      list_all (\<lambda>e. e \<notin> blocked \<and> fst e \<notin> bN \<and> road_between g isD e) (path_edges p))"

lemma path_edges_fst: "map fst (path_edges p) = butlast p"
  by (cases p) (simp_all add: path_edges_def map_fst_zip_take butlast_conv_take min_def)

lemma path_edges_Nil_iff: "path_edges p = [] \<longleftrightarrow> length p \<le> 1"
  by (cases p; cases "tl p") (auto simp: path_edges_def)

section \<open>The candidates of the eco route\<close>

text \<open>
  The two searches of one candidate, as \<open>eco_iteration\<close> runs them: the drive and walk
  paths, the total time and the walking time when both legs exist.
\<close>

definition eco_candidate ::
  "Graph \<Rightarrow> int \<Rightarrow> int \<Rightarrow> int set \<Rightarrow> (int \<times> int) set \<Rightarrow> nat
     \<Rightarrow> (int list \<times> int list \<times> int \<times> int) option" where
  "eco_candidate g s d aN aS i =
     (case dijkstra g s (loc_id (g ! i)) True aN aS of
        Some (Inr (driveResult, g1, tmpSegments1)) \<Rightarrow>
          if fst driveResult = [] then None
          else
            (case dijkstra g1 (loc_id (g ! i)) d False aN tmpSegments1 of
               Some (Inr (walkResult, g2, tmpSegments2)) \<Rightarrow>
                 if fst walkResult = [] then None
                 else Some (fst driveResult, fst walkResult,
                            wrap_int32 (snd driveResult + snd walkResult), snd walkResult)
             | _ \<Rightarrow> None)
      | _ \<Rightarrow> None)"

text \<open>
  The code's test \<open>exceedWalk == 0\<close> says that the walk is within the budget as
  long as the subtraction does not overflow.
\<close>

lemma exceedWalk_zero_iff:
  "- 2147483648 \<le> w - mw \<Longrightarrow> w - mw \<le> 2147483647 \<Longrightarrow>
     (max 0 (wrap_int32 (w - mw)) = 0) = (w \<le> mw)"
  by (simp add: wrap_int32_id max_def)

definition is_candidate :: "Graph \<Rightarrow> int \<Rightarrow> int \<Rightarrow> nat \<Rightarrow> bool" where
  "is_candidate g s d i = (i < length g \<and> hasParking (g ! i) \<and> loc_id (g ! i) \<noteq> s \<and> loc_id (g ! i) \<noteq> d)"

definition better :: "int \<Rightarrow> int \<Rightarrow> EcoLocals \<Rightarrow> bool" where
  "better t w loc = (t < bestTotalTime loc \<or> (t = bestTotalTime loc \<and> w < bestWalkingTime loc))"

lemma eco_iteration_result:
  assumes sn: "same_network g gk" and i: "i < length g"
    and it: "eco_iteration s d mw aN (gk, aS, loc) i = Some (Inr (gk', aS', loc'))"
  shows "same_network g gk'"
    and "\<not> is_candidate g s d i \<Longrightarrow> loc' = loc"
    and "is_candidate g s d i \<Longrightarrow> eco_candidate g s d aN aS i = None \<Longrightarrow> loc' = loc"
    and "is_candidate g s d i \<Longrightarrow> eco_candidate g s d aN aS i = Some (dp, wp, t, w) \<Longrightarrow>
           max 0 (wrap_int32 (w - mw)) = 0 \<Longrightarrow>
           loc' = (if better t w loc
                   then loc\<lparr>bestTotalTime := t, bestDrive := dp, bestWalk := wp,
                            bestWalkingTime := w, bestParking := loc_id (g ! i)\<rparr>
                   else loc)"
    and "is_candidate g s d i \<Longrightarrow> eco_candidate g s d aN aS i = Some (dp, wp, t, w) \<Longrightarrow>
           max 0 (wrap_int32 (w - mw)) \<noteq> 0 \<Longrightarrow>
           bestTotalTime loc' = bestTotalTime loc \<and> bestWalkingTime loc' = bestWalkingTime loc \<and>
           bestDrive loc' = bestDrive loc \<and> bestWalk loc' = bestWalk loc \<and>
           bestParking loc' = bestParking loc"
proof -
  have id: "loc_id (gk ! i) = loc_id (g ! i)" and hp: "hasParking (gk ! i) = hasParking (g ! i)"
    using same_network_nth[OF sn i] by simp_all
  have dr: "dijkstra gk s' d' m aN bS = dijkstra g s' d' m aN bS" for s' d' m bS
    using dijkstra_transient[OF sn] by simp
  show "same_network g gk'"
  proof (cases "is_candidate g s d i")
    case False
    with it i have "gk' = gk" by (auto simp: eco_iteration_def is_candidate_def id hp Let_def)
    with sn show ?thesis by simp
  next
    case True
    then have c: "hasParking (g ! i)" "loc_id (g ! i) \<noteq> s" "loc_id (g ! i) \<noteq> d"
      by (simp_all add: is_candidate_def)
    from it c obtain r1 g1 b1 where d1: "dijkstra g s (loc_id (g ! i)) True aN aS = Some (Inr (r1, g1, b1))"
      by (auto simp: eco_iteration_def id hp dr Let_def split: option.splits sum.splits if_splits)
    have sn1: "same_network g g1" using dijkstra_same_network[of g s _ True aN aS "r1" g1 b1] d1 by simp
    show ?thesis
    proof (cases "fst r1 = []")
      case True
      with it c d1 have "gk' = g1" by (auto simp: eco_iteration_def id hp dr Let_def)
      with sn1 show ?thesis by simp
    next
      case False
      with it c d1 obtain r2 g2 b2 where d2: "dijkstra g1 (loc_id (g ! i)) d False aN b1 = Some (Inr (r2, g2, b2))"
        by (auto simp: eco_iteration_def id hp dr Let_def split: option.splits sum.splits if_splits)
      have sn2: "same_network g1 g2" using dijkstra_same_network[of g1 _ d False aN b1 r2 g2 b2] d2 by simp
      from it c d1 d2 False have "gk' = g2"
        by (auto simp: eco_iteration_def id hp dr Let_def split: if_splits)
      with sn1 sn2 show ?thesis by (auto intro: same_network_trans)
    qed
  qed
  show "\<not> is_candidate g s d i \<Longrightarrow> loc' = loc"
    using it i by (auto simp: eco_iteration_def is_candidate_def id hp Let_def)
  show "is_candidate g s d i \<Longrightarrow> eco_candidate g s d aN aS i = None \<Longrightarrow> loc' = loc"
    using it by (auto simp: eco_iteration_def is_candidate_def eco_candidate_def id hp dr Let_def
        split: option.splits sum.splits if_splits)
  show "is_candidate g s d i \<Longrightarrow> eco_candidate g s d aN aS i = Some (dp, wp, t, w) \<Longrightarrow>
           max 0 (wrap_int32 (w - mw)) = 0 \<Longrightarrow>
           loc' = (if better t w loc
                   then loc\<lparr>bestTotalTime := t, bestDrive := dp, bestWalk := wp,
                            bestWalkingTime := w, bestParking := loc_id (g ! i)\<rparr>
                   else loc)"
    using it by (auto simp: eco_iteration_def is_candidate_def eco_candidate_def better_def id hp dr Let_def
        split: option.splits sum.splits if_splits)
  show "is_candidate g s d i \<Longrightarrow> eco_candidate g s d aN aS i = Some (dp, wp, t, w) \<Longrightarrow>
           max 0 (wrap_int32 (w - mw)) \<noteq> 0 \<Longrightarrow>
           bestTotalTime loc' = bestTotalTime loc \<and> bestWalkingTime loc' = bestWalkingTime loc \<and>
           bestDrive loc' = bestDrive loc \<and> bestWalk loc' = bestWalk loc \<and>
           bestParking loc' = bestParking loc"
    using it by (auto simp: eco_iteration_def is_candidate_def eco_candidate_def id hp dr Let_def
        split: option.splits sum.splits if_splits)
qed

definition best_inv ::
  "Graph \<Rightarrow> int \<Rightarrow> int \<Rightarrow> int \<Rightarrow> int set \<Rightarrow> (int \<times> int) set \<Rightarrow> nat set \<Rightarrow> EcoLocals \<Rightarrow> bool" where
  "best_inv g s d mw aN aS seen loc =
     ((bestDrive loc \<noteq> [] \<longrightarrow>
         (\<exists>i\<in>seen. is_candidate g s d i \<and> loc_id (g ! i) = bestParking loc \<and>
            eco_candidate g s d aN aS i
              = Some (bestDrive loc, bestWalk loc, bestTotalTime loc, bestWalkingTime loc) \<and>
            max 0 (wrap_int32 (bestWalkingTime loc - mw)) = 0)) \<and>
      (\<forall>i\<in>seen. is_candidate g s d i \<longrightarrow>
         (\<forall>dp wp t w. eco_candidate g s d aN aS i = Some (dp, wp, t, w) \<longrightarrow>
             max 0 (wrap_int32 (w - mw)) = 0 \<longrightarrow> \<not> better t w loc)))"

lemma eco_candidate_drive_nonempty:
  "eco_candidate g s d aN aS i = Some (dp, wp, t, w) \<Longrightarrow> dp \<noteq> []"
  by (auto simp: eco_candidate_def split: option.splits sum.splits if_splits)

lemma best_inv_step:
  assumes sn: "same_network g gk" and i: "i < length g"
    and it: "eco_iteration s d mw aN (gk, aS, loc) i = Some (Inr (gk', aS', loc'))"
    and inv: "best_inv g s d mw aN aS seen loc"
  shows "best_inv g s d mw aN aS (insert i seen) loc'"
proof -
  note res = eco_iteration_result[OF sn i it]
  consider (skip) "\<not> is_candidate g s d i"
    | (none) "is_candidate g s d i" "eco_candidate g s d aN aS i = None"
    | (feasible) dp wp t w where "is_candidate g s d i"
        "eco_candidate g s d aN aS i = Some (dp, wp, t, w)" "max 0 (wrap_int32 (w - mw)) = 0"
    | (exceeds) dp wp t w where "is_candidate g s d i"
        "eco_candidate g s d aN aS i = Some (dp, wp, t, w)" "max 0 (wrap_int32 (w - mw)) \<noteq> 0"
  proof (cases "eco_candidate g s d aN aS i")
    case None
    then show ?thesis using skip none by blast
  next
    case (Some c)
    obtain dp wp t w where "c = (dp, wp, t, w)" by (cases c)
    with Some show ?thesis using skip feasible[of dp wp t w] exceeds[of dp wp t w] by blast
  qed
  then show ?thesis
  proof cases
    case skip
    with res(2) have "loc' = loc" by simp
    with inv skip show ?thesis by (auto simp: best_inv_def)
  next
    case none
    with res(3) have "loc' = loc" by simp
    with inv none show ?thesis by (auto simp: best_inv_def)
  next
    case feasible
    note l' = res(4)[OF feasible]
    show ?thesis
    proof (cases "better t w loc")
      case True
      with l' have l: "loc' = loc\<lparr>bestTotalTime := t, bestDrive := dp, bestWalk := wp,
                            bestWalkingTime := w, bestParking := loc_id (g ! i)\<rparr>" by simp
      have b: "\<not> better t' w' loc'" if "\<not> better t' w' loc" for t' w'
        using that True by (auto simp: better_def l)
      have "\<not> better t w loc'" by (simp add: better_def l)
      with inv feasible b show ?thesis
        by (auto simp: best_inv_def l)
    next
      case False
      with l' have "loc' = loc" by simp
      with inv feasible False show ?thesis by (auto simp: best_inv_def)
    qed
  next
    case exceeds
    note l' = res(5)[OF exceeds]
    then have b: "better t' w' loc' = better t' w' loc" for t' w'
      by (simp add: better_def)
    from inv exceeds l' show ?thesis by (auto simp: best_inv_def b)
  qed
qed

lemma best_inv_loop:
  assumes "eco_loop s d mw aN is (gk, aS, loc) = Some (Inr (g', aS', loc'))"
    and "same_network g gk" and "\<forall>i\<in>set is. i < length g"
    and "best_inv g s d mw aN aS seen loc"
  shows "best_inv g s d mw aN aS (seen \<union> set is) loc'"
  using assms
proof (induction "is" arbitrary: gk loc seen)
  case Nil
  then show ?case by simp
next
  case (Cons i "is")
  from Cons.prems(1) obtain g1 aS1 loc1 where
    it: "eco_iteration s d mw aN (gk, aS, loc) i = Some (Inr (g1, aS1, loc1))"
    and lp: "eco_loop s d mw aN is (g1, aS1, loc1) = Some (Inr (g', aS', loc'))"
    by (auto split: option.splits sum.splits)
  have i: "i < length g" using Cons.prems(3) by simp
  have aS1: "aS1 = aS" using eco_iteration_avoidSegments[OF it] by simp
  have sn1: "same_network g g1" using eco_iteration_result(1)[OF Cons.prems(2) i it] .
  have inv1: "best_inv g s d mw aN aS (insert i seen) loc1"
    using best_inv_step[OF Cons.prems(2) i it Cons.prems(4)] .
  from Cons.IH[OF lp[unfolded aS1] sn1 _ inv1] Cons.prems(3)
  show ?case by simp
qed

section \<open>Non-negative costs below the overflow bound\<close>

text \<open>
  \<open>costs_ok g isD W\<close>: every usable cost of the selected mode lies between \<open>0\<close>
  and \<open>W\<close>, and \<open>W\<close> times the number of locations stays below \<open>INF\<close>, so that
  no sum of costs along a path without repeated locations reaches \<open>INF\<close> or overflows.
\<close>

definition costs_ok :: "Graph \<Rightarrow> bool \<Rightarrow> int \<Rightarrow> bool" where
  "costs_ok g isD W =
     (0 \<le> W \<and> int (length g) * W < INF_int \<and>
      list_all (\<lambda>l. list_all (\<lambda>r. edge_cost isD r = INF_int \<or>
                                  (0 \<le> edge_cost isD r \<and> edge_cost isD r \<le> W)) (adj l)) g)"

lemma costs_ok_road:
  "costs_ok g isD W \<Longrightarrow> u < length g \<Longrightarrow> r \<in> set (adj (g ! u)) \<Longrightarrow>
     edge_cost isD r \<noteq> INF_int \<Longrightarrow> 0 \<le> edge_cost isD r \<and> edge_cost isD r \<le> W"
  by (auto simp: costs_ok_def list_all_iff)

lemma costs_ok_bound: "costs_ok g isD W \<Longrightarrow> 0 \<le> W \<and> int (length g) * W < INF_int"
  by (simp add: costs_ok_def)

lemma costs_ok_same_network:
  assumes "costs_ok g isD W" "same_network g g'"
  shows "costs_ok g' isD W"
proof -
  have len: "length g' = length g" using same_network_length[OF assms(2)] by simp
  have "0 \<le> edge_cost isD r \<and> edge_cost isD r \<le> W"
    if "l \<in> set g'" "r \<in> set (adj l)" "edge_cost isD r \<noteq> INF_int" for l r
  proof -
    from that(1) obtain u where u: "u < length g'" "g' ! u = l" by (auto simp: in_set_conv_nth)
    with that(2) same_network_nth(2)[OF assms(2), of u] len have "r \<in> set (adj (g ! u))" by simp
    from costs_ok_road[OF assms(1) _ this that(3)] u len show ?thesis by simp
  qed
  then show ?thesis using costs_ok_bound[OF assms(1)] len
    by (auto simp: costs_ok_def list_all_iff)
qed

text \<open>The locations processed before \<open>v\<close>, in a list of processed locations, latest first.\<close>

definition earlier :: "nat list \<Rightarrow> nat \<Rightarrow> nat set" where
  "earlier ds v = set (tl (dropWhile (\<lambda>x. x \<noteq> v) ds))"

lemma earlier_Cons: "earlier (u # ds) v = (if u = v then set ds else earlier ds v)"
  by (simp add: earlier_def)

lemma earlier_subset: "earlier ds v \<subseteq> set ds"
proof (induction ds)
  case Nil
  show ?case by (simp add: earlier_def)
next
  case (Cons u ds)
  then show ?case by (auto simp: earlier_Cons)
qed

lemma earlier_shorter:
  "distinct ds \<Longrightarrow> v \<in> set ds \<Longrightarrow> w \<in> earlier ds v \<Longrightarrow>
     card (earlier ds w) < card (earlier ds v)"
proof (induction ds)
  case Nil
  then show ?case by simp
next
  case (Cons a ds)
  show ?case
  proof (cases "a = v")
    case True
    with Cons.prems have w: "w \<in> set ds" "w \<noteq> a" by (auto simp: earlier_Cons)
    have "earlier ds w \<subseteq> set ds - {w}"
    proof -
      have "w \<notin> earlier ds w"
        using Cons.prems(1)
      proof (induction ds)
        case Nil then show ?case by (simp add: earlier_def)
      next
        case (Cons b ds) then show ?case by (auto simp: earlier_Cons dest: subsetD[OF earlier_subset])
      qed
      then show ?thesis using earlier_subset[of ds w] by auto
    qed
    then have "card (earlier ds w) \<le> card (set ds - {w})" by (intro card_mono) auto
    also have "\<dots> < card (set ds)" using w(1) by (intro psubset_card_mono) auto
    finally show ?thesis using w True by (simp add: earlier_Cons)
  next
    case False
    with Cons.prems have v: "v \<in> set ds" and w: "w \<in> earlier ds v" by (auto simp: earlier_Cons)
    from w earlier_subset[of ds v] have "w \<in> set ds" by auto
    with Cons.prems(1) have "a \<noteq> w" by auto
    with Cons.IH[OF _ v w] Cons.prems(1) False show ?thesis by (simp add: earlier_Cons)
  qed
qed

lemma pq_top_le: "e \<in> set pq \<Longrightarrow> fst (pq_top pq) \<le> fst e"
  by (induction pq rule: pq_top.induct) (auto simp: Let_def pq_less_def split: if_splits)

text \<open>
  The invariant of the main loop under \<open>costs_ok\<close>.  \<open>ds\<close> lists the locations that
  were popped with their current distance, latest first; \<open>R\<close> holds the roads of the
  latest one that the inner loop has not relaxed yet.
\<close>

definition dij_inv ::
  "bool \<Rightarrow> int set \<Rightarrow> (int \<times> int) set \<Rightarrow> int \<Rightarrow> nat \<Rightarrow> nat list \<Rightarrow> Road set
     \<Rightarrow> Graph \<times> (int \<times> int) list \<Rightarrow> bool" where
  "dij_inv isD bN bS W src ds R st =
     (costs_ok (fst st) isD W \<and>
      distinct ds \<and> (\<forall>v\<in>set ds. v < length (fst st)) \<and>
      distance (fst st ! src) = 0 \<and> parent (fst st ! src) = None \<and>
      (\<forall>v<length (fst st). 0 \<le> distance (fst st ! v)) \<and>
      (\<forall>e\<in>set (snd st). \<forall>v\<in>set ds. distance (fst st ! v) \<le> fst e) \<and>
      (\<forall>v\<in>set ds. distance (fst st ! v) \<le> (int (length ds) - 1) * W) \<and>
      (\<forall>e\<in>set (snd st). fst e \<le> int (length ds) * W) \<and>
      distinct (snd st) \<and>
      (\<forall>v\<in>set ds. \<forall>e\<in>set (snd st). snd e = loc_id (fst st ! v) \<longrightarrow>
           distance (fst st ! v) < fst e) \<and>
      (\<forall>v<length (fst st). distance (fst st ! v) < INF_int \<longrightarrow>
           v \<in> set ds \<or> (distance (fst st ! v), loc_id (fst st ! v)) \<in> set (snd st)) \<and>
      (\<forall>v<length (fst st). \<forall>r. parent (fst st ! v) = Some r \<longrightarrow>
           origin r \<in> set ds \<and>
           distance (fst st ! v) = distance (fst st ! origin r) + edge_cost isD r \<and>
           (v \<in> set ds \<longrightarrow> origin r \<in> earlier ds v)) \<and>
      (\<forall>u\<in>set ds. loc_id (fst st ! u) \<notin> bN \<longrightarrow>
         (\<forall>r\<in>set (adj (fst st ! u)).
            (u = hd ds \<and> r \<in> R) \<or> edge_cost isD r = INF_int \<or>
            (loc_id (fst st ! u), loc_id (fst st ! destination r)) \<in> bS \<or>
            distance (fst st ! destination r) \<le> distance (fst st ! u) + edge_cost isD r)))"

lemma dij_invD:
  assumes "dij_inv isD bN bS W src ds R (g, pq)"
  shows "costs_ok g isD W" and "distinct ds" and "\<forall>v\<in>set ds. v < length g"
    and "distance (g ! src) = 0" and "parent (g ! src) = None"
    and "\<forall>v<length g. 0 \<le> distance (g ! v)"
    and "\<forall>e\<in>set pq. \<forall>v\<in>set ds. distance (g ! v) \<le> fst e"
    and "\<forall>v\<in>set ds. distance (g ! v) \<le> (int (length ds) - 1) * W"
    and "\<forall>e\<in>set pq. fst e \<le> int (length ds) * W"
    and "distinct pq"
    and "\<forall>v\<in>set ds. \<forall>e\<in>set pq. snd e = loc_id (g ! v) \<longrightarrow> distance (g ! v) < fst e"
    and "\<forall>v<length g. distance (g ! v) < INF_int \<longrightarrow>
           v \<in> set ds \<or> (distance (g ! v), loc_id (g ! v)) \<in> set pq"
    and "\<forall>v<length g. \<forall>r. parent (g ! v) = Some r \<longrightarrow>
           origin r \<in> set ds \<and>
           distance (g ! v) = distance (g ! origin r) + edge_cost isD r \<and>
           (v \<in> set ds \<longrightarrow> origin r \<in> earlier ds v)"
    and "\<forall>u\<in>set ds. loc_id (g ! u) \<notin> bN \<longrightarrow>
         (\<forall>r\<in>set (adj (g ! u)).
            (u = hd ds \<and> r \<in> R) \<or> edge_cost isD r = INF_int \<or>
            (loc_id (g ! u), loc_id (g ! destination r)) \<in> bS \<or>
            distance (g ! destination r) \<le> distance (g ! u) + edge_cost isD r)"
  using assms unfolding dij_inv_def fst_conv snd_conv by - (elim conjE, assumption)+

lemma dij_invI:
  assumes "costs_ok g isD W" and "distinct ds" and "\<forall>v\<in>set ds. v < length g"
    and "distance (g ! src) = 0" and "parent (g ! src) = None"
    and "\<forall>v<length g. 0 \<le> distance (g ! v)"
    and "\<forall>e\<in>set pq. \<forall>v\<in>set ds. distance (g ! v) \<le> fst e"
    and "\<forall>v\<in>set ds. distance (g ! v) \<le> (int (length ds) - 1) * W"
    and "\<forall>e\<in>set pq. fst e \<le> int (length ds) * W"
    and "distinct pq"
    and "\<forall>v\<in>set ds. \<forall>e\<in>set pq. snd e = loc_id (g ! v) \<longrightarrow> distance (g ! v) < fst e"
    and "\<forall>v<length g. distance (g ! v) < INF_int \<longrightarrow>
           v \<in> set ds \<or> (distance (g ! v), loc_id (g ! v)) \<in> set pq"
    and "\<forall>v<length g. \<forall>r. parent (g ! v) = Some r \<longrightarrow>
           origin r \<in> set ds \<and>
           distance (g ! v) = distance (g ! origin r) + edge_cost isD r \<and>
           (v \<in> set ds \<longrightarrow> origin r \<in> earlier ds v)"
    and "\<forall>u\<in>set ds. loc_id (g ! u) \<notin> bN \<longrightarrow>
         (\<forall>r\<in>set (adj (g ! u)).
            (u = hd ds \<and> r \<in> R) \<or> edge_cost isD r = INF_int \<or>
            (loc_id (g ! u), loc_id (g ! destination r)) \<in> bS \<or>
            distance (g ! destination r) \<le> distance (g ! u) + edge_cost isD r)"
  shows "dij_inv isD bN bS W src ds R (g, pq)"
  unfolding dij_inv_def fst_conv snd_conv using assms by (intro conjI)

lemma distinct_length_le:
  assumes "distinct ds" "\<forall>v\<in>set ds. v < n"
  shows "length ds \<le> n"
proof -
  have "card (set ds) \<le> card {..<n}" using assms(2) by (intro card_mono) auto
  then show ?thesis using assms(1) by (simp add: distinct_card)
qed

lemma dij_inv_relax:
  assumes inv: "dij_inv isD bN bS W src (u # ds0) R (g, pq)"
    and sinv: "search_inv isD bN bS src (g, pq)"
    and u: "distance (g ! u) = cd" "loc_id (g ! u) = cn"
    and done_le: "\<forall>v\<in>set (u # ds0). distance (g ! v) \<le> cd"
    and r: "r \<in> set (adj (g ! u))"
  shows "dij_inv isD bN bS W src (u # ds0) (R - {r}) (relax isD bS cd cn (g, pq) r) \<and>
         (\<forall>v\<in>set (u # ds0). distance (fst (relax isD bS cd cn (g, pq) r) ! v) = distance (g ! v)) \<and>
         (\<forall>e\<in>set (snd (relax isD bS cd cn (g, pq) r)). e \<in> set pq \<or> cd \<le> fst e)"
proof -
  let ?ds = "u # ds0"
  note D = dij_invD[OF inv]
  have costs: "costs_ok g isD W" and dds: "distinct ?ds" using D(1,2) .
  have ds_lt: "v < length g" if "v \<in> set ?ds" for v using D(3) that by blast
  have src0: "distance (g ! src) = 0" "parent (g ! src) = None" using D(4,5) .
  have nonneg: "0 \<le> distance (g ! v)" if "v < length g" for v using D(6) that by blast
  have D4: "distance (g ! v) \<le> fst e" if "e \<in> set pq" "v \<in> set ?ds" for e v
    using D(7) that by blast
  have D5a: "distance (g ! v) \<le> (int (length ?ds) - 1) * W" if "v \<in> set ?ds" for v
    using D(8) that by blast
  have D5b: "fst e \<le> int (length ?ds) * W" if "e \<in> set pq" for e using D(9) that by blast
  have dpq: "distinct pq" using D(10) .
  have D6: "distance (g ! v) < fst e" if "v \<in> set ?ds" "e \<in> set pq" "snd e = loc_id (g ! v)" for v e
    using D(11) that by blast
  have D7: "v \<in> set ?ds \<or> (distance (g ! v), loc_id (g ! v)) \<in> set pq"
    if "v < length g" "distance (g ! v) < INF_int" for v using D(12) that by blast
  have D8: "origin r \<in> set ?ds \<and> distance (g ! v) = distance (g ! origin r) + edge_cost isD r \<and>
               (v \<in> set ?ds \<longrightarrow> origin r \<in> earlier ?ds v)"
    if "v < length g" "parent (g ! v) = Some r" for v r using D(13) that by blast
  have D9: "(u' = hd ?ds \<and> r' \<in> R) \<or> edge_cost isD r' = INF_int \<or>
               (loc_id (g ! u'), loc_id (g ! destination r')) \<in> bS \<or>
               distance (g ! destination r') \<le> distance (g ! u') + edge_cost isD r'"
    if "u' \<in> set ?ds" "loc_id (g ! u') \<notin> bN" "r' \<in> set (adj (g ! u'))" for u' r'
    using D(14) that by blast
  from sinv have wf: "wf_graph g"
    and pqi: "\<And>e. e \<in> set pq \<Longrightarrow> \<exists>x<length g. loc_id (g ! x) = snd e \<and> distance (g ! x) \<le> fst e"
    by (auto simp: search_inv_def)
  have ul: "u < length g" using ds_lt by simp
  have orr: "origin r = u" and kl: "destination r < length g"
    using wf_graph_road[OF wf ul r] by simp_all
  define k where "k = destination r"
  define w where "w = edge_cost isD r"
  have k: "k < length g" using kl by (simp add: k_def)
  have len_ds: "int (length ?ds) \<le> int (length g)"
    using distinct_length_le[OF dds, of "length g"] ds_lt by simp
  have W0: "0 \<le> W" and nW: "int (length g) * W < INF_int" using costs_ok_bound[OF costs] by simp_all
  have cd0: "0 \<le> cd" using nonneg[OF ul] u(1) by simp
  have cdb: "cd \<le> (int (length ?ds) - 1) * W" using D5a[of u] u(1) by simp
  have nowrap: "wrap_int32 (cd + w) = cd + w \<and> cd \<le> cd + w \<and> cd + w \<le> int (length ?ds) * W
      \<and> cd + w < INF_int" if us: "w \<noteq> INF_int"
  proof -
    from costs_ok_road[OF costs ul r] us have w: "0 \<le> w" "w \<le> W" by (simp_all add: w_def)
    have "cd + w \<le> (int (length ?ds) - 1) * W + W" using cdb w by simp
    also have "\<dots> = int (length ?ds) * W" by (simp add: algebra_simps)
    finally have b: "cd + w \<le> int (length ?ds) * W" .
    also have "\<dots> \<le> int (length g) * W" using len_ds W0 by (rule mult_right_mono)
    finally have "cd + w < INF_int" using nW by simp
    then have "wrap_int32 (cd + w) = cd + w" using cd0 w
      by (intro wrap_int32_id) (simp_all add: INF_int_def)
    with b w \<open>cd + w < INF_int\<close> show ?thesis by simp
  qed
  show ?thesis
  proof (cases rule: relax_cases[of isD bS cd cn g pq r])
    case same
    have r_ok: "edge_cost isD r = INF_int \<or> (loc_id (g ! u), loc_id (g ! destination r)) \<in> bS \<or>
        distance (g ! destination r) \<le> distance (g ! u) + edge_cost isD r"
    proof (cases "w = INF_int \<or> (cn, loc_id (g ! k)) \<in> bS")
      case True
      then show ?thesis using u(2) by (auto simp: w_def k_def)
    next
      case False
      then have us: "w \<noteq> INF_int" by simp
      have "\<not> wrap_int32 (cd + w) < distance (g ! k)"
      proof
        assume "wrap_int32 (cd + w) < distance (g ! k)"
        with False k have "relax isD bS cd cn (g, pq) r \<noteq> (g, pq)"
          by (simp add: relax_eq w_def[symmetric] k_def[symmetric])
        with same show False by simp
      qed
      with nowrap[OF us] show ?thesis using u(1) by (simp add: w_def k_def)
    qed
    have "(u' = hd ?ds \<and> r' \<in> R - {r}) \<or> edge_cost isD r' = INF_int \<or>
               (loc_id (g ! u'), loc_id (g ! destination r')) \<in> bS \<or>
               distance (g ! destination r') \<le> distance (g ! u') + edge_cost isD r'"
      if "u' \<in> set ?ds" "loc_id (g ! u') \<notin> bN" "r' \<in> set (adj (g ! u'))" for u' r'
      using D9[OF that] r_ok by auto
    then have "\<forall>u\<in>set ?ds. loc_id (g ! u) \<notin> bN \<longrightarrow>
         (\<forall>r'\<in>set (adj (g ! u)).
            (u = hd ?ds \<and> r' \<in> R - {r}) \<or> edge_cost isD r' = INF_int \<or>
            (loc_id (g ! u), loc_id (g ! destination r')) \<in> bS \<or>
            distance (g ! destination r') \<le> distance (g ! u) + edge_cost isD r')" by blast
    then have "dij_inv isD bN bS W src ?ds (R - {r}) (g, pq)" by (intro dij_invI D(1-13))
    then show ?thesis unfolding same by simp
  next
    case update
    define nd where "nd = cd + w"
    have us: "w \<noteq> INF_int" using update(1) by (simp add: w_def)
    note nw = nowrap[OF us]
    define g' where "g' = g[k := (g ! k)\<lparr>parent := Some r, distance := nd\<rparr>]"
    have rel: "relax isD bS cd cn (g, pq) r = (g', pq @ [(nd, loc_id (g ! k))])"
      using update(5) nw by (simp add: k_def w_def nd_def g'_def)
    have lt: "nd < distance (g ! k)" using update(4) nw by (simp add: k_def w_def nd_def)
    have k_notin: "k \<notin> set ?ds"
    proof
      assume "k \<in> set ?ds"
      with done_le have "distance (g ! k) \<le> cd" by blast
      with lt nw show False by (simp add: nd_def)
    qed
    have k_src: "k \<noteq> src" using lt src0(1) nw cd0 by (auto simp: nd_def)
    have sn: "same_network g g'" unfolding g'_def by (rule same_network_update)
    have len: "length g' = length g" by (simp add: g'_def)
    have ids: "loc_id (g' ! v) = loc_id (g ! v)" if "v < length g" for v
      using same_network_nth(1)[OF sn that] .
    have adjs: "adj (g' ! v) = adj (g ! v)" if "v < length g" for v
      using same_network_nth(2)[OF sn that] .
    have dist': "distance (g' ! v) = (if v = k then nd else distance (g ! v))" if "v < length g" for v
      using that by (simp add: g'_def nth_list_update)
    have par': "parent (g' ! v) = (if v = k then Some r else parent (g ! v))" if "v < length g" for v
      using that by (simp add: g'_def nth_list_update)
    have dist_ds: "distance (g' ! v) = distance (g ! v)" if "v \<in> set ?ds" for v
      using dist'[OF ds_lt[OF that]] that k_notin by auto
    have ids_ds: "loc_id (g' ! v) = loc_id (g ! v)" if "v \<in> set ?ds" for v
      using ids[OF ds_lt[OF that]] .
    have id_inj: "v = v'" if "v < length g" "v' < length g" "loc_id (g ! v) = loc_id (g ! v')" for v v'
      using nth_eq_iff_index_eq[OF wf_graph_distinct[OF wf], of v v'] that by simp
    have c1: "costs_ok g' isD W" using costs sn by (rule costs_ok_same_network)
    have c3: "distance (g' ! src) = 0 \<and> parent (g' ! src) = None"
    proof -
      from sinv have "src < length g" by (simp add: search_inv_def)
      with k_src src0 show ?thesis by (simp add: dist' par')
    qed
    have c4: "0 \<le> distance (g' ! v)" if "v < length g" for v
      using nonneg[OF that] cd0 nw by (simp add: dist'[OF that] nd_def)
    have c5: "distance (g' ! v) \<le> fst e" if "e \<in> set (pq @ [(nd, loc_id (g ! k))])" "v \<in> set ?ds" for e v
    proof (cases "e \<in> set pq")
      case True
      with D4[OF True that(2)] show ?thesis by (simp add: dist_ds[OF that(2)])
    next
      case False
      with that(1) have "fst e = nd" by auto
      moreover have "distance (g ! v) \<le> cd" using done_le that(2) by blast
      ultimately show ?thesis using nw by (simp add: dist_ds[OF that(2)] nd_def)
    qed
    have c6: "distance (g' ! v) \<le> (int (length ?ds) - 1) * W" if "v \<in> set ?ds" for v
      using D5a[OF that] by (simp only: dist_ds[OF that])
    have c7: "fst e \<le> int (length ?ds) * W" if "e \<in> set (pq @ [(nd, loc_id (g ! k))])" for e
      using that D5b[of e] nw by (auto simp: nd_def)
    have new_notin: "(nd, loc_id (g ! k)) \<notin> set pq"
    proof
      assume a: "(nd, loc_id (g ! k)) \<in> set pq"
      from pqi[OF a] obtain x where x: "x < length g" "loc_id (g ! x) = loc_id (g ! k)" "distance (g ! x) \<le> nd"
        by auto
      from id_inj[OF x(1) k x(2)] x(3) lt show False by simp
    qed
    have c8: "distinct (pq @ [(nd, loc_id (g ! k))])" using dpq new_notin by simp
    have c9: "distance (g' ! v) < fst e"
      if "v \<in> set ?ds" "e \<in> set (pq @ [(nd, loc_id (g ! k))])" "snd e = loc_id (g' ! v)" for v e
    proof (cases "e \<in> set pq")
      case True
      from D6[OF that(1) True] that(3) show ?thesis by (simp add: dist_ds[OF that(1)] ids_ds[OF that(1)])
    next
      case False
      with that(2,3) have "loc_id (g ! k) = loc_id (g ! v)" by (auto simp: ids_ds[OF that(1)])
      from id_inj[OF k ds_lt[OF that(1)] this] that(1) k_notin show ?thesis by simp
    qed
    have c10: "v \<in> set ?ds \<or> (distance (g' ! v), loc_id (g' ! v)) \<in> set (pq @ [(nd, loc_id (g ! k))])"
      if "v < length g" "distance (g' ! v) < INF_int" for v
    proof (cases "v = k")
      case True
      then show ?thesis using k by (simp add: dist' ids)
    next
      case False
      with that D7[of v] show ?thesis by (auto simp: dist' ids)
    qed
    have c11: "origin r' \<in> set ?ds \<and>
           distance (g' ! v) = distance (g' ! origin r') + edge_cost isD r' \<and>
           (v \<in> set ?ds \<longrightarrow> origin r' \<in> earlier ?ds v)"
      if "v < length g" "parent (g' ! v) = Some r'" for v r'
    proof (cases "v = k")
      case True
      with that have [simp]: "r' = r" by (simp add: par')
      have "distance (g' ! u) = cd" using dist_ds[of u] u(1) by simp
      then show ?thesis using True k k_notin orr by (simp add: dist' nd_def w_def)
    next
      case False
      with that have "parent (g ! v) = Some r'" by (simp add: par')
      from D8[OF that(1) this] have o: "origin r' \<in> set ?ds"
        "distance (g ! v) = distance (g ! origin r') + edge_cost isD r'"
        "v \<in> set ?ds \<longrightarrow> origin r' \<in> earlier ?ds v" by simp_all
      show ?thesis using o False that(1) by (simp add: dist' dist_ds[OF o(1)])
    qed
    have c12: "(u' = hd ?ds \<and> r' \<in> R - {r}) \<or> edge_cost isD r' = INF_int \<or>
            (loc_id (g' ! u'), loc_id (g' ! destination r')) \<in> bS \<or>
            distance (g' ! destination r') \<le> distance (g' ! u') + edge_cost isD r'"
      if "u' \<in> set ?ds" "loc_id (g' ! u') \<notin> bN" "r' \<in> set (adj (g' ! u'))" for u' r'
    proof -
      have u'l: "u' < length g" using ds_lt[OF that(1)] .
      have r'a: "r' \<in> set (adj (g ! u'))" using that(3) adjs[OF u'l] by simp
      have dl: "destination r' < length g" using wf_graph_road[OF wf u'l r'a] by simp
      have mono: "distance (g' ! destination r') \<le> distance (g ! destination r')"
        using dist'[OF dl] lt by auto
      show ?thesis
      proof (cases "u' = u \<and> r' = r")
        case True
        have "distance (g' ! k) = distance (g' ! u) + w"
          using dist'[OF k] dist_ds[of u] u(1) by (simp add: nd_def)
        with True show ?thesis by (simp add: k_def w_def)
      next
        case False
        from D9[OF that(1) _ r'a] that(2) ids_ds[OF that(1)]
        have "(u' = hd ?ds \<and> r' \<in> R) \<or> edge_cost isD r' = INF_int \<or>
               (loc_id (g ! u'), loc_id (g ! destination r')) \<in> bS \<or>
               distance (g ! destination r') \<le> distance (g ! u') + edge_cost isD r'" by simp
        with False mono show ?thesis
          by (auto simp: ids[OF dl] ids_ds[OF that(1)] dist_ds[OF that(1)])
      qed
    qed
    have "dij_inv isD bN bS W src ?ds (R - {r}) (g', pq @ [(nd, loc_id (g ! k))])"
    proof (rule dij_invI)
      show "costs_ok g' isD W" by (rule c1)
      show "distinct ?ds" by (rule dds)
      show "\<forall>v\<in>set ?ds. v < length g'" using ds_lt by (simp add: len)
      show "distance (g' ! src) = 0" "parent (g' ! src) = None" using c3 by simp_all
      show "\<forall>v<length g'. 0 \<le> distance (g' ! v)" using c4 by (simp add: len)
      show "\<forall>e\<in>set (pq @ [(nd, loc_id (g ! k))]). \<forall>v\<in>set ?ds. distance (g' ! v) \<le> fst e"
        using c5 by blast
      show "\<forall>v\<in>set ?ds. distance (g' ! v) \<le> (int (length ?ds) - 1) * W" using c6 by blast
      show "\<forall>e\<in>set (pq @ [(nd, loc_id (g ! k))]). fst e \<le> int (length ?ds) * W" using c7 by blast
      show "distinct (pq @ [(nd, loc_id (g ! k))])" by (rule c8)
      show "\<forall>v\<in>set ?ds. \<forall>e\<in>set (pq @ [(nd, loc_id (g ! k))]).
              snd e = loc_id (g' ! v) \<longrightarrow> distance (g' ! v) < fst e" using c9 by blast
      show "\<forall>v<length g'. distance (g' ! v) < INF_int \<longrightarrow>
           v \<in> set ?ds \<or> (distance (g' ! v), loc_id (g' ! v)) \<in> set (pq @ [(nd, loc_id (g ! k))])"
        using c10 unfolding len by blast
      show "\<forall>v<length g'. \<forall>r. parent (g' ! v) = Some r \<longrightarrow>
           origin r \<in> set ?ds \<and>
           distance (g' ! v) = distance (g' ! origin r) + edge_cost isD r \<and>
           (v \<in> set ?ds \<longrightarrow> origin r \<in> earlier ?ds v)"
        using c11 unfolding len by blast
      show "\<forall>u\<in>set ?ds. loc_id (g' ! u) \<notin> bN \<longrightarrow>
         (\<forall>r'\<in>set (adj (g' ! u)).
            (u = hd ?ds \<and> r' \<in> R - {r}) \<or> edge_cost isD r' = INF_int \<or>
            (loc_id (g' ! u), loc_id (g' ! destination r')) \<in> bS \<or>
            distance (g' ! destination r') \<le> distance (g' ! u) + edge_cost isD r')"
        using c12 by blast
    qed
    moreover have "\<forall>v\<in>set ?ds. distance (g' ! v) = distance (g ! v)" using dist_ds by blast
    moreover have "\<forall>e\<in>set (pq @ [(nd, loc_id (g ! k))]). e \<in> set pq \<or> cd \<le> fst e"
      using nw by (auto simp: nd_def)
    ultimately show ?thesis unfolding rel by simp
  qed
qed

lemma wf_graph_id_inj:
  "wf_graph g \<Longrightarrow> v < length g \<Longrightarrow> v' < length g \<Longrightarrow> loc_id (g ! v) = loc_id (g ! v') \<Longrightarrow> v = v'"
  using nth_eq_iff_index_eq[OF wf_graph_distinct, of g v v'] by simp

lemma dij_inv_fold:
  assumes "dij_inv isD bN bS W src (u # ds0) R (g, pq)"
    and "search_inv isD bN bS src (g, pq)"
    and "distance (g ! u) = cd" "loc_id (g ! u) = cn" "cn \<notin> bN" "cd < INF_int"
    and "\<forall>v\<in>set (u # ds0). distance (g ! v) \<le> cd"
    and "set rs \<subseteq> set (adj (g ! u))" and "R \<subseteq> set rs"
  shows "dij_inv isD bN bS W src (u # ds0) {}
           (fold (\<lambda>road s'. relax isD bS cd cn s' road) rs (g, pq))"
  using assms
proof (induction rs arbitrary: g pq R)
  case Nil
  then show ?case by simp
next
  case (Cons r rs)
  obtain g' pq' where rel: "relax isD bS cd cn (g, pq) r = (g', pq')"
    by (cases "relax isD bS cd cn (g, pq) r")
  have r: "r \<in> set (adj (g ! u))" using Cons.prems(8) by simp
  have ul: "u < length g" using dij_invD(3)[OF Cons.prems(1)] by simp
  from dij_inv_relax[OF Cons.prems(1,2,3,4,7) r]
  have inv': "dij_inv isD bN bS W src (u # ds0) (R - {r}) (g', pq')"
    and same: "\<forall>v\<in>set (u # ds0). distance (g' ! v) = distance (g ! v)"
    by (simp_all add: rel)
  have sinv': "search_inv isD bN bS src (g', pq')"
    using search_inv_relax[OF Cons.prems(2) ul Cons.prems(4,5) _ Cons.prems(6) r] Cons.prems(3)
    by (simp add: rel)
  have sn: "same_network g g'"
    using relax_same_network[of "(g, pq)" isD bS cd cn r] by (simp add: rel)
  have d': "distance (g' ! u) = cd" using same Cons.prems(3) by simp
  have id': "loc_id (g' ! u) = cn" using same_network_nth(1)[OF sn ul] Cons.prems(4) by simp
  have adj': "adj (g' ! u) = adj (g ! u)" using same_network_nth(2)[OF sn ul] .
  have le': "\<forall>v\<in>set (u # ds0). distance (g' ! v) \<le> cd" using same Cons.prems(7) by simp
  have rs': "set rs \<subseteq> set (adj (g' ! u))" using Cons.prems(8) by (simp add: adj')
  have R': "R - {r} \<subseteq> set rs" using Cons.prems(9) by auto
  from Cons.IH[OF inv' sinv' d' id' Cons.prems(5,6) le' rs' R']
  show ?case by (simp add: rel)
qed

lemma dij_inv_stale:
  assumes inv: "dij_inv isD bN bS W src ds {} (g, pq)"
    and sinv: "search_inv isD bN bS src (g, pq)"
    and ne: "pq \<noteq> []" and u: "u < length g" "loc_id (g ! u) = snd (pq_top pq)"
    and stale: "distance (g ! u) < fst (pq_top pq)"
  shows "dij_inv isD bN bS W src ds {} (g, pq_pop pq)"
proof -
  note D = dij_invD[OF inv]
  from sinv have wf: "wf_graph g" by (simp add: search_inv_def)
  have sub: "set (pq_pop pq) \<subseteq> set pq" by (rule set_pq_pop)
  have pop: "set (pq_pop pq) = set pq - {pq_top pq}"
    using D(10) by (simp add: pq_pop_def)
  show ?thesis
  proof (rule dij_invI)
    show "\<forall>v<length g. distance (g ! v) < INF_int \<longrightarrow>
           v \<in> set ds \<or> (distance (g ! v), loc_id (g ! v)) \<in> set (pq_pop pq)"
    proof (intro allI impI)
      fix v assume v: "v < length g" "distance (g ! v) < INF_int"
      show "v \<in> set ds \<or> (distance (g ! v), loc_id (g ! v)) \<in> set (pq_pop pq)"
      proof (cases "(distance (g ! v), loc_id (g ! v)) = pq_top pq")
        case True
        then have "loc_id (g ! v) = loc_id (g ! u)" "distance (g ! v) = fst (pq_top pq)"
          using u(2) by (auto simp: prod_eq_iff)
        with wf_graph_id_inj[OF wf v(1) u(1)] stale show ?thesis by simp
      next
        case False
        with D(12) v show ?thesis by (auto simp: pop)
      qed
    qed
    show "distinct (pq_pop pq)" using D(10) by (simp add: pq_pop_def)
  qed (use D sub in blast)+
qed

lemma dij_inv_pop:
  assumes inv: "dij_inv isD bN bS W src ds {} (g, pq)"
    and sinv: "search_inv isD bN bS src (g, pq)"
    and ne: "pq \<noteq> []" and u: "u < length g" "loc_id (g ! u) = snd (pq_top pq)"
    and cur: "distance (g ! u) = fst (pq_top pq)"
  shows "dij_inv isD bN bS W src (u # ds) (set (adj (g ! u))) (g, pq_pop pq)"
    and "\<forall>v\<in>set (u # ds). distance (g ! v) \<le> fst (pq_top pq)"
proof -
  note D = dij_invD[OF inv]
  from sinv have wf: "wf_graph g"
    and pqi: "\<And>e. e \<in> set pq \<Longrightarrow> \<exists>x<length g. loc_id (g ! x) = snd e \<and> distance (g ! x) \<le> fst e"
    by (auto simp: search_inv_def)
  have top: "pq_top pq \<in> set pq" using ne by (rule pq_top_in)
  have pop: "set (pq_pop pq) = set pq - {pq_top pq}"
    using D(10) by (simp add: pq_pop_def)
  have W0: "0 \<le> W" using costs_ok_bound[OF D(1)] by simp
  have u_new: "u \<notin> set ds"
  proof
    assume "u \<in> set ds"
    with D(11) top u(2)[symmetric] have "distance (g ! u) < fst (pq_top pq)" by blast
    with cur show False by simp
  qed
  show le: "\<forall>v\<in>set (u # ds). distance (g ! v) \<le> fst (pq_top pq)"
    using D(7) top cur by auto
  show "dij_inv isD bN bS W src (u # ds) (set (adj (g ! u))) (g, pq_pop pq)"
  proof (rule dij_invI)
    show "costs_ok g isD W" by (rule D(1))
    show "distinct (u # ds)" using D(2) u_new by simp
    show "\<forall>v\<in>set (u # ds). v < length g" using D(3) u(1) by simp
    show "distance (g ! src) = 0" "parent (g ! src) = None" by (rule D(4), rule D(5))
    show "\<forall>v<length g. 0 \<le> distance (g ! v)" by (rule D(6))
    show "\<forall>e\<in>set (pq_pop pq). \<forall>v\<in>set (u # ds). distance (g ! v) \<le> fst e"
    proof (intro ballI)
      fix e v assume e: "e \<in> set (pq_pop pq)" and v: "v \<in> set (u # ds)"
      from e have e': "e \<in> set pq" by (simp add: pop)
      show "distance (g ! v) \<le> fst e"
      proof (cases "v = u")
        case True
        then show ?thesis using pq_top_le[OF e'] cur by simp
      next
        case False
        with v D(7) e' show ?thesis by auto
      qed
    qed
    show "\<forall>v\<in>set (u # ds). distance (g ! v) \<le> (int (length (u # ds)) - 1) * W"
    proof
      fix v assume v: "v \<in> set (u # ds)"
      show "distance (g ! v) \<le> (int (length (u # ds)) - 1) * W"
      proof (cases "v = u")
        case True
        from D(9) top have "fst (pq_top pq) \<le> int (length ds) * W" by blast
        with True cur show ?thesis by simp
      next
        case False
        with v D(8) have "distance (g ! v) \<le> (int (length ds) - 1) * W" by auto
        also have "\<dots> \<le> int (length ds) * W" using W0 by (simp add: algebra_simps)
        finally show ?thesis by simp
      qed
    qed
    show "\<forall>e\<in>set (pq_pop pq). fst e \<le> int (length (u # ds)) * W"
    proof
      fix e assume "e \<in> set (pq_pop pq)"
      with D(9) have "fst e \<le> int (length ds) * W" by (auto simp: pop)
      also have "\<dots> \<le> int (length (u # ds)) * W" using W0 by (simp add: algebra_simps)
      finally show "fst e \<le> int (length (u # ds)) * W" .
    qed
    show "distinct (pq_pop pq)" using D(10) by (simp add: pq_pop_def)
    show "\<forall>v\<in>set (u # ds). \<forall>e\<in>set (pq_pop pq). snd e = loc_id (g ! v) \<longrightarrow> distance (g ! v) < fst e"
    proof (intro ballI impI)
      fix v e assume v: "v \<in> set (u # ds)" and e: "e \<in> set (pq_pop pq)" and s: "snd e = loc_id (g ! v)"
      from e have e': "e \<in> set pq" "e \<noteq> pq_top pq" by (simp_all add: pop)
      show "distance (g ! v) < fst e"
      proof (cases "v = u")
        case True
        from pq_top_le[OF e'(1)] cur True have "distance (g ! v) \<le> fst e" by simp
        moreover have "fst e \<noteq> fst (pq_top pq)" using e'(2) s True u(2) by (auto simp: prod_eq_iff)
        ultimately show ?thesis using cur True by simp
      next
        case False
        with v D(11) e'(1) s show ?thesis by auto
      qed
    qed
    show "\<forall>v<length g. distance (g ! v) < INF_int \<longrightarrow>
           v \<in> set (u # ds) \<or> (distance (g ! v), loc_id (g ! v)) \<in> set (pq_pop pq)"
    proof (intro allI impI)
      fix v assume v: "v < length g" "distance (g ! v) < INF_int"
      show "v \<in> set (u # ds) \<or> (distance (g ! v), loc_id (g ! v)) \<in> set (pq_pop pq)"
      proof (cases "(distance (g ! v), loc_id (g ! v)) = pq_top pq")
        case True
        then have "loc_id (g ! v) = loc_id (g ! u)" using u(2) by (auto simp: prod_eq_iff)
        with wf_graph_id_inj[OF wf v(1) u(1)] show ?thesis by simp
      next
        case False
        with D(12) v show ?thesis by (auto simp: pop)
      qed
    qed
    show "\<forall>v<length g. \<forall>r. parent (g ! v) = Some r \<longrightarrow>
           origin r \<in> set (u # ds) \<and>
           distance (g ! v) = distance (g ! origin r) + edge_cost isD r \<and>
           (v \<in> set (u # ds) \<longrightarrow> origin r \<in> earlier (u # ds) v)"
    proof (intro allI impI)
      fix v r assume v: "v < length g" and p: "parent (g ! v) = Some r"
      from D(13) v p have o: "origin r \<in> set ds"
        "distance (g ! v) = distance (g ! origin r) + edge_cost isD r"
        "v \<in> set ds \<longrightarrow> origin r \<in> earlier ds v" by blast+
      then show "origin r \<in> set (u # ds) \<and>
           distance (g ! v) = distance (g ! origin r) + edge_cost isD r \<and>
           (v \<in> set (u # ds) \<longrightarrow> origin r \<in> earlier (u # ds) v)"
        by (auto simp: earlier_Cons)
    qed
    show "\<forall>u'\<in>set (u # ds). loc_id (g ! u') \<notin> bN \<longrightarrow>
         (\<forall>r\<in>set (adj (g ! u')).
            (u' = hd (u # ds) \<and> r \<in> set (adj (g ! u))) \<or> edge_cost isD r = INF_int \<or>
            (loc_id (g ! u'), loc_id (g ! destination r)) \<in> bS \<or>
            distance (g ! destination r) \<le> distance (g ! u') + edge_cost isD r)"
    proof (intro ballI impI)
      fix u' r assume u': "u' \<in> set (u # ds)" "loc_id (g ! u') \<notin> bN" and r: "r \<in> set (adj (g ! u'))"
      show "(u' = hd (u # ds) \<and> r \<in> set (adj (g ! u))) \<or> edge_cost isD r = INF_int \<or>
            (loc_id (g ! u'), loc_id (g ! destination r)) \<in> bS \<or>
            distance (g ! destination r) \<le> distance (g ! u') + edge_cost isD r"
      proof (cases "u' = u")
        case True
        with r show ?thesis by simp
      next
        case False
        with u' have "u' \<in> set ds" by simp
        with D(14) u'(2) r show ?thesis by blast
      qed
    qed
  qed
qed

lemma dij_inv_blocked:
  assumes "dij_inv isD bN bS W src (u # ds) R (g, pq)" "loc_id (g ! u) \<in> bN"
  shows "dij_inv isD bN bS W src (u # ds) {} (g, pq)"
proof -
  note D = dij_invD[OF assms(1)]
  have "\<forall>u'\<in>set (u # ds). loc_id (g ! u') \<notin> bN \<longrightarrow>
         (\<forall>r\<in>set (adj (g ! u')).
            (u' = hd (u # ds) \<and> r \<in> {}) \<or> edge_cost isD r = INF_int \<or>
            (loc_id (g ! u'), loc_id (g ! destination r)) \<in> bS \<or>
            distance (g ! destination r) \<le> distance (g ! u') + edge_cost isD r)"
  proof (intro ballI impI)
    fix u' r assume u': "u' \<in> set (u # ds)" "loc_id (g ! u') \<notin> bN" and r: "r \<in> set (adj (g ! u'))"
    from u'(2) assms(2) have "u' \<noteq> hd (u # ds)" by auto
    with D(14) u' r show "(u' = hd (u # ds) \<and> r \<in> {}) \<or> edge_cost isD r = INF_int \<or>
            (loc_id (g ! u'), loc_id (g ! destination r)) \<in> bS \<or>
            distance (g ! destination r) \<le> distance (g ! u') + edge_cost isD r" by blast
  qed
  then show ?thesis by (intro dij_invI D(1-13))
qed

lemma dij_inv_step:
  assumes sinv: "search_inv isD bN bS src s" and inv: "dij_inv isD bN bS W src ds {} s"
    and ne: "snd s \<noteq> []" and st: "dijkstra_step isD bN bS s = Inr s'"
  shows "\<exists>ds'. dij_inv isD bN bS W src ds' {} s'"
proof -
  obtain g pq where s: "s = (g, pq)" by (cases s)
  from sinv inv ne have sinv': "search_inv isD bN bS src (g, pq)"
    and inv': "dij_inv isD bN bS W src ds {} (g, pq)" and ne': "pq \<noteq> []" by (simp_all add: s)
  from search_inv_top[OF sinv' ne'] obtain u where u:
    "findLocation g (snd (pq_top pq)) = Some u" "u < length g"
    "loc_id (g ! u) = snd (pq_top pq)" "distance (g ! u) \<le> fst (pq_top pq)"
    "fst (pq_top pq) < INF_int" by blast
  show ?thesis
  proof (cases "fst (pq_top pq) > distance (g ! u)")
    case True
    then have "s' = (g, pq_pop pq)" using st u(1) by (auto simp: dijkstra_step_def s Let_def)
    with dij_inv_stale[OF inv' sinv' ne' u(2,3) True] show ?thesis by blast
  next
    case False
    with u(4) have cur: "distance (g ! u) = fst (pq_top pq)" by simp
    note pop = dij_inv_pop[OF inv' sinv' ne' u(2,3) cur]
    show ?thesis
    proof (cases "snd (pq_top pq) \<in> bN")
      case True
      then have "s' = (g, pq_pop pq)" using st u(1)
        by (auto simp: dijkstra_step_def s Let_def split: if_splits)
      moreover have "dij_inv isD bN bS W src (u # ds) {} (g, pq_pop pq)"
        using dij_inv_blocked[OF pop(1)] True u(3) by simp
      ultimately show ?thesis by blast
    next
      case nb: False
      then have s': "s' = fold (\<lambda>road s'. relax isD bS (fst (pq_top pq)) (snd (pq_top pq)) s' road)
               (adj (g ! u)) (g, pq_pop pq)"
        using st u(1) False by (auto simp: dijkstra_step_def s Let_def split: if_splits)
      have "dij_inv isD bN bS W src (u # ds) {} s'" unfolding s'
        by (rule dij_inv_fold[OF pop(1) search_inv_pop[OF sinv'] cur u(3) nb u(5) pop(2)]) simp_all
      then show ?thesis by blast
    qed
  qed
qed

lemma dij_inv_loop:
  assumes "search_inv isD bN bS src s" and "dij_inv isD bN bS W src ds {} s"
    and "dijkstra_loop isD bN bS s = Inr g'"
  shows "\<exists>ds'. dij_inv isD bN bS W src ds' {} (g', [])"
  using assms
proof (induction isD bN bS s arbitrary: ds rule: dijkstra_loop.induct)
  case (1 isD bN bS s)
  show ?case
  proof (cases "snd s = []")
    case True
    with "1.prems"(3) have "g' = fst s" by simp
    with "1.prems"(2) True show ?thesis by (cases s) auto
  next
    case False
    from search_inv_step[OF "1.prems"(1) False] obtain s' where
      st: "dijkstra_step isD bN bS s = Inr s'" and sinv': "search_inv isD bN bS src s'" by blast
    from dij_inv_step[OF "1.prems"(1,2) False st] obtain ds' where
      inv': "dij_inv isD bN bS W src ds' {} s'" by blast
    have "dijkstra_loop isD bN bS s = dijkstra_loop isD bN bS s'"
      using False st by (subst dijkstra_loop.simps) simp
    with "1.prems"(3) have "dijkstra_loop isD bN bS s' = Inr g'" by simp
    from "1.IH"[OF False st sinv' inv' this] show ?thesis .
  qed
qed

lemma dij_inv_init:
  assumes wf: "wf_graph g" and costs: "costs_ok g isD W" and f: "findLocation g sId = Some src"
  shows "dij_inv isD bN bS W src [] {}
           ((init_locations g)[src := (init_locations g ! src)\<lparr>distance := 0\<rparr>], [(0, sId)])"
proof -
  let ?g0 = "init_locations g"
  let ?g1 = "?g0[src := (?g0 ! src)\<lparr>distance := 0\<rparr>]"
  from findLocation_Some[OF f] have src: "src < length g" "loc_id (g ! src) = sId" by simp_all
  have sn: "same_network g ?g1"
    using same_network_init[of g] same_network_update_distance[of ?g0 src 0]
    by (rule same_network_trans)
  have len: "length ?g1 = length g" by simp
  have d: "distance (?g1 ! v) = (if v = src then 0 else INF_int)" if "v < length g" for v
    using that src(1) by (auto simp: nth_list_update init_locations_nth)
  have p: "parent (?g1 ! v) = None" if "v < length g" for v
    using that src(1) by (auto simp: nth_list_update init_locations_nth)
  have i: "loc_id (?g1 ! src) = sId" using same_network_nth(1)[OF sn src(1)] src(2) by simp
  show ?thesis
  proof (rule dij_invI)
    show "costs_ok ?g1 isD W" using costs sn by (rule costs_ok_same_network)
    show "distance (?g1 ! src) = 0" using d[OF src(1)] by simp
    show "parent (?g1 ! src) = None" using p[OF src(1)] by simp
    show "\<forall>v<length ?g1. 0 \<le> distance (?g1 ! v)" unfolding len by (simp add: d INF_int_def)
    show "\<forall>v<length ?g1. distance (?g1 ! v) < INF_int \<longrightarrow>
           v \<in> set [] \<or> (distance (?g1 ! v), loc_id (?g1 ! v)) \<in> set [(0, sId)]"
      unfolding len using i by (auto simp: d)
    show "\<forall>v<length ?g1. \<forall>r. parent (?g1 ! v) = Some r \<longrightarrow>
           origin r \<in> set [] \<and>
           distance (?g1 ! v) = distance (?g1 ! origin r) + edge_cost isD r \<and>
           (v \<in> set [] \<longrightarrow> origin r \<in> earlier [] v)"
      unfolding len by (simp add: p)
  qed simp_all
qed

lemma dijkstra_search_dij_inv:
  assumes wf: "wf_graph g" and costs: "costs_ok g isD W" and f: "findLocation g sId = Some src"
  obtains g' ds where "dijkstra_search g sId isD bN bS = Inr g'" "same_network g g'"
    "search_inv isD bN bS src (g', [])" "dij_inv isD bN bS W src ds {} (g', [])"
proof -
  have f0: "findLocation (init_locations g) sId = Some src"
    using findLocation_same_network[OF same_network_init[of g], of sId] f by simp
  from dijkstra_search_inv[OF wf f, of isD bN bS] obtain g' where
    s: "dijkstra_search g sId isD bN bS = Inr g'" and sinv: "search_inv isD bN bS src (g', [])"
    and sn: "same_network g g'" by blast
  from s f0 have l: "dijkstra_loop isD bN bS
          ((init_locations g)[src := (init_locations g ! src)\<lparr>distance := 0\<rparr>], [(0, sId)]) = Inr g'"
    by (simp add: dijkstra_search_def Let_def)
  from dij_inv_loop[OF search_inv_init[OF wf f] dij_inv_init[OF wf costs f] l]
  obtain ds where "dij_inv isD bN bS W src ds {} (g', [])" by blast
  with s sn sinv show ?thesis using that by blast
qed

lemma earlier_irrefl: "distinct ds \<Longrightarrow> v \<notin> earlier ds v"
proof (induction ds)
  case Nil
  then show ?case by (simp add: earlier_def)
next
  case (Cons a ds)
  then show ?case using earlier_subset[of ds v] by (auto simp: earlier_Cons)
qed

lemma earlier_trans:
  "distinct ds \<Longrightarrow> w \<in> earlier ds v \<Longrightarrow> earlier ds w \<subseteq> earlier ds v"
proof (induction ds)
  case Nil
  then show ?case by (simp add: earlier_def)
next
  case (Cons a ds)
  show ?case
  proof (cases "a = v")
    case True
    with Cons.prems have w: "w \<in> set ds" "a \<noteq> w" by (auto simp: earlier_Cons)
    then show ?thesis using True earlier_subset[of ds w] by (simp add: earlier_Cons)
  next
    case False
    with Cons.prems have w: "w \<in> earlier ds v" by (simp add: earlier_Cons)
    with earlier_subset[of ds v] Cons.prems(1) have "a \<noteq> w" by auto
    with Cons.IH[OF _ w] Cons.prems(1) False show ?thesis by (simp add: earlier_Cons)
  qed
qed

lemma chain_exists:
  assumes inv: "dij_inv isD bN bS W src ds {} (g, pq)"
    and sinv: "search_inv isD bN bS src (g, pq)"
    and src: "loc_id (g ! src) = sId"
    and v: "v \<in> set ds"
  shows "\<exists>rs. parent_chain g sId v rs \<and> origin ` set rs \<subseteq> earlier ds v \<and>
              distinct (map origin rs) \<and>
              distance (g ! v) = sum_list (map (edge_cost isD) rs)"
  using v
proof (induction "card (earlier ds v)" arbitrary: v rule: less_induct)
  case less
  note D = dij_invD[OF inv]
  from sinv have wf: "wf_graph g" and srcl: "src < length g"
    and reach: "\<And>x. x < length g \<Longrightarrow> distance (g ! x) < INF_int \<Longrightarrow> x \<noteq> src \<Longrightarrow> parent (g ! x) \<noteq> None"
    by (auto simp: search_inv_def)
  have vl: "v < length g" using D(3) less.prems by blast
  have fin: "distance (g ! v) < INF_int"
  proof -
    have "distance (g ! v) \<le> (int (length ds) - 1) * W" using D(8) less.prems by blast
    also have "\<dots> \<le> int (length ds) * W" using costs_ok_bound[OF D(1)] by (simp add: algebra_simps)
    also have "\<dots> \<le> int (length g) * W"
      using distinct_length_le[OF D(2,3)] costs_ok_bound[OF D(1)] by (intro mult_right_mono) simp_all
    finally show ?thesis using costs_ok_bound[OF D(1)] by simp
  qed
  show ?case
  proof (cases "parent (g ! v) = None \<or> loc_id (g ! v) = sId")
    case True
    have "v = src"
    proof (cases "loc_id (g ! v) = sId")
      case True
      with src wf_graph_id_inj[OF wf vl srcl] show ?thesis by simp
    next
      case False
      with True reach[OF vl fin] show ?thesis by auto
    qed
    with D(4) have "distance (g ! v) = 0" by simp
    with parent_chain.stop[OF True] show ?thesis by (intro exI[of _ "[]"]) simp
  next
    case False
    then obtain r where r: "parent (g ! v) = Some r" and ns: "loc_id (g ! v) \<noteq> sId" by auto
    from D(13) vl r less.prems have o: "origin r \<in> set ds"
      "distance (g ! v) = distance (g ! origin r) + edge_cost isD r" "origin r \<in> earlier ds v"
      by blast+
    from less.hyps[OF earlier_shorter[OF D(2) less.prems o(3)] o(1)] obtain rs where
      rs: "parent_chain g sId (origin r) rs" "origin ` set rs \<subseteq> earlier ds (origin r)"
        "distinct (map origin rs)" "distance (g ! origin r) = sum_list (map (edge_cost isD) rs)"
      by blast
    have 1: "parent_chain g sId v (r # rs)" using r ns rs(1) by (rule parent_chain.step)
    have 2: "origin ` set (r # rs) \<subseteq> earlier ds v"
      using o(3) rs(2) earlier_trans[OF D(2) o(3)] by auto
    have 3: "distinct (map origin (r # rs))"
      using rs(2,3) earlier_irrefl[OF D(2), of "origin r"] by auto
    have 4: "distance (g ! v) = sum_list (map (edge_cost isD) (r # rs))"
      using o(2) rs(4) by simp
    from 1 2 3 4 show ?thesis by blast
  qed
qed

lemma dij_inv_done_finite:
  assumes inv: "dij_inv isD bN bS W src ds R (g, pq)" and v: "v \<in> set ds"
  shows "distance (g ! v) \<le> (int (length g) - 1) * W" "distance (g ! v) < INF_int"
proof -
  note D = dij_invD[OF inv]
  have W: "0 \<le> W" "int (length g) * W < INF_int" using costs_ok_bound[OF D(1)] by simp_all
  have "distance (g ! v) \<le> (int (length ds) - 1) * W" using D(8) v by blast
  also have "\<dots> \<le> (int (length g) - 1) * W"
    using distinct_length_le[OF D(2,3)] W(1) by (intro mult_right_mono) simp_all
  finally show 1: "distance (g ! v) \<le> (int (length g) - 1) * W" .
  also have "\<dots> \<le> int (length g) * W" using W(1) by (simp add: algebra_simps)
  finally show "distance (g ! v) < INF_int" using W(2) by simp
qed

lemma dij_inv_closed:
  assumes inv: "dij_inv isD {} {} W src ds {} (g, [])"
    and wf: "wf_graph g"
    and u: "u \<in> set ds" and r: "r \<in> set (adj (g ! u))" "edge_cost isD r \<noteq> INF_int"
  shows "destination r \<in> set ds"
proof -
  note D = dij_invD[OF inv]
  have ul: "u < length g" using D(3) u by blast
  have dl: "destination r < length g" using wf_graph_road[OF wf ul r(1)] by simp
  from D(14) u r have "distance (g ! destination r) \<le> distance (g ! u) + edge_cost isD r" by auto
  also have "\<dots> \<le> (int (length g) - 1) * W + W"
    using dij_inv_done_finite(1)[OF inv u] costs_ok_road[OF D(1) ul r] by simp
  also have "\<dots> = int (length g) * W" by (simp add: algebra_simps)
  finally have "distance (g ! destination r) < INF_int" using costs_ok_bound[OF D(1)] by simp
  with D(12) dl show ?thesis by auto
qed

text \<open>
  \<open>path_roads g p rs\<close>: the roads \<open>rs\<close> of the network lead along the path \<open>p\<close>,
  one road for every pair of consecutive identifiers.
\<close>

definition path_roads :: "Graph \<Rightarrow> int list \<Rightarrow> Road list \<Rightarrow> bool" where
  "path_roads g p rs =
     (map (road_pair g) rs = path_edges p \<and>
      list_all (\<lambda>r. origin r < length g \<and> r \<in> set (adj (g ! origin r))) rs)"

lemma findLocation_member:
  "s \<in> set (map loc_id g) \<Longrightarrow> \<exists>src. findLocation g s = Some src"
  using findLocation_None[of g s] by (cases "findLocation g s") auto

lemma chain_roads:
  assumes inv: "search_inv isD bN bS src (g, pq)"
    and "parent_chain g sId cur rs" and "cur < length g"
  shows "path_roads g (rev (chain_ids g cur rs)) (rev rs)"
  using assms(2,3)
proof (induction rule: parent_chain.induct)
  case (stop cur)
  show ?case by (simp add: path_roads_def chain_ids_def path_edges_def)
next
  case (step cur r rs)
  from inv step(1,5) have ok: "parent_ok isD bN bS g cur r" by (auto simp: search_inv_def)
  then have o: "origin r < length g" "destination r = cur" "r \<in> set (adj (g ! origin r))"
    by (simp_all add: parent_ok_def)
  from step.IH[OF o(1)] have IH: "map (road_pair g) (rev rs) = path_edges (rev (chain_ids g (origin r) rs))"
    "list_all (\<lambda>r. origin r < length g \<and> r \<in> set (adj (g ! origin r))) (rev rs)"
    by (simp_all add: path_roads_def)
  have c: "rev (chain_ids g cur (r # rs)) = rev (chain_ids g (origin r) rs) @ [loc_id (g ! cur)]"
    by (simp add: chain_ids_def)
  have "path_edges (rev (chain_ids g cur (r # rs)))
      = path_edges (rev (chain_ids g (origin r) rs)) @ [(loc_id (g ! origin r), loc_id (g ! cur))]"
    unfolding c path_edges_snoc by (simp add: last_rev)
  with IH o show ?case by (simp add: path_roads_def road_pair_def)
qed

lemma path_roads_same_network:
  assumes sn: "same_network g g'" and wf: "wf_graph g'" and pr: "path_roads g' p rs"
  shows "path_roads g p rs"
proof -
  have len: "length g' = length g" using same_network_length[OF sn] by simp
  have r: "origin r < length g \<and> r \<in> set (adj (g ! origin r)) \<and> road_pair g r = road_pair g' r"
    if "r \<in> set rs" for r
  proof -
    from pr that have o: "origin r < length g" "r \<in> set (adj (g' ! origin r))"
      by (auto simp: path_roads_def list_all_iff len)
    have a: "r \<in> set (adj (g ! origin r))" using o same_network_nth(2)[OF sn o(1)] by simp
    have d: "destination r < length g"
      using wf_graph_road[OF wf _ o(2)] o(1) by (simp add: len)
    show ?thesis using o(1) a same_network_nth(1)[OF sn o(1)] same_network_nth(1)[OF sn d]
      by (simp add: road_pair_def)
  qed
  then have "map (road_pair g) rs = map (road_pair g') rs" by (intro map_cong) auto
  with pr r show ?thesis by (auto simp: path_roads_def list_all_iff)
qed

lemma route_reaches:
  assumes inv: "dij_inv isD {} {} W src ds {} (g, [])" and wf: "wf_graph g"
    and "u \<in> set ds" "loc_id (g ! u) = hd q" "q \<noteq> []"
    and "list_all (road_between g isD) (path_edges q)"
  shows "\<exists>v\<in>set ds. loc_id (g ! v) = last q"
  using assms(3-6)
proof (induction q arbitrary: u)
  case Nil
  then show ?case by simp
next
  case (Cons a q)
  show ?case
  proof (cases q)
    case Nil
    with Cons.prems show ?thesis by auto
  next
    case (Cons b q')
    from Cons.prems(4) Cons have rb: "road_between g isD (a, b)"
      and rest: "list_all (road_between g isD) (path_edges q)"
      by (simp_all add: path_edges_Cons2)
    from rb obtain l r where l: "l \<in> set g" "loc_id l = a" "r \<in> set (adj l)"
      "edge_cost isD r \<noteq> INF_int" "destination r < length g" "loc_id (g ! destination r) = b"
      by (auto simp: road_between_def list_ex_iff)
    from l(1) obtain u' where u': "u' < length g" "g ! u' = l" by (auto simp: in_set_conv_nth)
    have ul: "u < length g" using dij_invD(3)[OF inv] Cons.prems(1) by blast
    have "u' = u" using wf_graph_id_inj[OF wf u'(1) ul] u'(2) l(2) Cons.prems(2) by simp
    with l(3) u'(2) have "r \<in> set (adj (g ! u))" by simp
    from dij_inv_closed[OF inv wf Cons.prems(1) this l(4)] have d: "destination r \<in> set ds" .
    from Cons.IH[OF d _ _ rest] l(6) Cons show ?thesis by simp
  qed
qed

lemma dijkstra_search_chain:
  assumes wf: "wf_graph g" and costs: "costs_ok g isD W"
    and s: "dijkstra_search g s isD bN bS = Inr g'"
    and d: "findLocation g' d = Some dst" and fin: "distance (g' ! dst) \<noteq> INF_int"
  obtains rs where "parent_chain g' s dst rs" "distinct (dst # map origin rs)"
    "length rs < length g'" "last (chain_ids g' dst rs) = s"
    "distance (g' ! dst) = sum_list (map (edge_cost isD) rs)"
    "path_roads g (rev (chain_ids g' dst rs)) (rev rs)"
proof -
  from s obtain src where src: "findLocation g s = Some src"
    using findLocation_same_network[OF same_network_init[of g], of s]
    by (auto simp: dijkstra_search_def Let_def split: option.splits)
  from dijkstra_search_dij_inv[OF wf costs src, of bN bS] s obtain ds where
    sn: "same_network g g'" and sinv: "search_inv isD bN bS src (g', [])"
    and inv: "dij_inv isD bN bS W src ds {} (g', [])" by auto
  note D = dij_invD[OF inv]
  from findLocation_Some[OF src] have srcl: "src < length g" "loc_id (g ! src) = s" by simp_all
  have src': "loc_id (g' ! src) = s" using same_network_nth(1)[OF sn srcl(1)] srcl(2) by simp
  from findLocation_Some[OF d] have dl: "dst < length g'" by simp
  from sinv dl have "distance (g' ! dst) \<le> INF_int" by (auto simp: search_inv_def)
  with fin have fin': "distance (g' ! dst) < INF_int" by simp
  with D(12) dl have dd: "dst \<in> set ds" by auto
  from chain_exists[OF inv sinv src' dd] obtain rs where rs:
    "parent_chain g' s dst rs" "origin ` set rs \<subseteq> earlier ds dst" "distinct (map origin rs)"
    "distance (g' ! dst) = sum_list (map (edge_cost isD) rs)" by blast
  have 2: "distinct (dst # map origin rs)"
    using rs(2,3) earlier_irrefl[OF D(2), of dst] by auto
  have "set (dst # map origin rs) \<subseteq> set ds" using dd rs(2) earlier_subset[of ds dst] by auto
  with D(3) have "\<forall>v\<in>set (dst # map origin rs). v < length g'" by blast
  from distinct_length_le[OF 2 this] have 3: "length rs < length g'" by simp
  from chain_sound[OF sinv src' rs(1) dl fin'] have 4: "last (chain_ids g' dst rs) = s" by simp
  have wf': "wf_graph g'" using wf sn by (rule wf_graph_same_network)
  have 6: "path_roads g (rev (chain_ids g' dst rs)) (rev rs)"
    using path_roads_same_network[OF sn wf' chain_roads[OF sinv rs(1) dl]] .
  show ?thesis using that[OF rs(1) 2 3 4 rs(4) 6] .
qed

section \<open>A reached location has a route\<close>

text \<open>
  Whatever the costs are, a location whose distance is below \<open>INF\<close> is the end of a
  route from the source along usable roads that are not blocked and leave no blocked
  location: the source itself, or a location relaxed from one that had such a route.
  \<open>g0\<close> is the graph the call was given.
\<close>

definition reach_inv ::
  "Graph \<Rightarrow> bool \<Rightarrow> int set \<Rightarrow> (int \<times> int) set \<Rightarrow> int \<Rightarrow> Graph \<Rightarrow> bool" where
  "reach_inv g0 isD bN bS sId g =
     (\<forall>v<length g. distance (g ! v) < INF_int \<longrightarrow>
        (\<exists>q. route_avoiding g0 isD bN bS sId (loc_id (g ! v)) q))"

lemma route_avoiding_snoc:
  assumes "route_avoiding g isD bN bS s c q" "(c, x) \<notin> bS" "c \<notin> bN" "road_between g isD (c, x)"
  shows "route_avoiding g isD bN bS s x (q @ [x])"
  using assms by (auto simp: route_avoiding_def path_edges_snoc)

lemma route_avoiding_same_network:
  assumes "same_network g g'" "route_avoiding g' isD bN bS s d q"
  shows "route_avoiding g isD bN bS s d q"
  using assms(2) road_between_same_network[OF assms(1)]
  by (auto simp: route_avoiding_def list_all_iff)

lemma reach_inv_relax:
  assumes inv: "reach_inv g0 isD bN bS sId g" and sn: "same_network g0 g"
    and u: "u < length g" "loc_id (g ! u) = cn" "cn \<notin> bN"
    and q: "route_avoiding g0 isD bN bS sId cn q"
    and r: "r \<in> set (adj (g ! u))"
  shows "reach_inv g0 isD bN bS sId (fst (relax isD bS cd cn (g, pq) r))"
proof (cases rule: relax_cases[of isD bS cd cn g pq r])
  case same
  then show ?thesis using inv by simp
next
  case update
  define k where "k = destination r"
  define g' where "g' = g[k := (g ! k)\<lparr>parent := Some r,
      distance := wrap_int32 (cd + edge_cost isD r)\<rparr>]"
  have rel: "fst (relax isD bS cd cn (g, pq) r) = g'"
    using update(5) by (simp add: k_def g'_def)
  have k: "k < length g" using update(2) by (simp add: k_def)
  have len: "length g' = length g" by (simp add: g'_def)
  have ids: "loc_id (g' ! v) = loc_id (g ! v)" if "v < length g" for v
    using that by (cases "v = k") (simp_all add: g'_def)
  have rb: "road_between g isD (loc_id (g ! u), loc_id (g ! destination r))"
    using u(1) r update(1,2) by (rule road_betweenI)
  have "road_between g0 isD (cn, loc_id (g ! k))"
    using road_between_same_network[OF sn rb] by (simp add: u(2) k_def)
  from route_avoiding_snoc[OF q _ u(3) this] update(3)
  have qk: "route_avoiding g0 isD bN bS sId (loc_id (g ! k)) (q @ [loc_id (g ! k)])"
    by (simp add: k_def)
  have "\<exists>q. route_avoiding g0 isD bN bS sId (loc_id (g' ! v)) q"
    if v: "v < length g'" and d: "distance (g' ! v) < INF_int" for v
  proof (cases "v = k")
    case True
    with qk k show ?thesis by (auto simp: ids)
  next
    case False
    with v d have "distance (g ! v) < INF_int" by (simp add: g'_def)
    with inv v have "\<exists>q. route_avoiding g0 isD bN bS sId (loc_id (g ! v)) q"
      by (simp add: reach_inv_def len)
    with v show ?thesis by (simp add: ids len)
  qed
  then show ?thesis unfolding rel reach_inv_def by blast
qed

lemma reach_inv_fold:
  assumes "reach_inv g0 isD bN bS sId g" and "same_network g0 g"
    and "u < length g" "loc_id (g ! u) = cn" "cn \<notin> bN"
    and "route_avoiding g0 isD bN bS sId cn q"
    and "set rs \<subseteq> set (adj (g ! u))"
  shows "reach_inv g0 isD bN bS sId
           (fst (fold (\<lambda>road s'. relax isD bS cd cn s' road) rs (g, pq)))"
  using assms
proof (induction rs arbitrary: g pq)
  case Nil
  then show ?case by simp
next
  case (Cons r rs)
  obtain g' pq' where rel: "relax isD bS cd cn (g, pq) r = (g', pq')"
    by (cases "relax isD bS cd cn (g, pq) r")
  have r: "r \<in> set (adj (g ! u))" using Cons.prems(7) by simp
  have inv': "reach_inv g0 isD bN bS sId g'"
    using reach_inv_relax[OF Cons.prems(1-6) r, of cd pq] by (simp add: rel)
  have sn: "same_network g g'"
    using relax_same_network[of "(g, pq)" isD bS cd cn r] by (simp add: rel)
  have sn': "same_network g0 g'" using Cons.prems(2) sn by (rule same_network_trans)
  have u': "u < length g'" using Cons.prems(3) same_network_length[OF sn] by simp
  have id': "loc_id (g' ! u) = cn"
    using same_network_nth(1)[OF sn Cons.prems(3)] Cons.prems(4) by simp
  have adj': "adj (g' ! u) = adj (g ! u)" using same_network_nth(2)[OF sn Cons.prems(3)] .
  have "reach_inv g0 isD bN bS sId
          (fst (fold (\<lambda>road s'. relax isD bS cd cn s' road) rs (g', pq')))"
    using Cons.IH[OF inv' sn' u' id' Cons.prems(5,6)] Cons.prems(7) by (simp add: adj')
  then show ?case by (simp add: rel)
qed

lemma reach_inv_step:
  assumes sinv: "search_inv isD bN bS src s" and ne: "snd s \<noteq> []"
    and inv: "reach_inv g0 isD bN bS sId (fst s)" and sn: "same_network g0 (fst s)"
    and st: "dijkstra_step isD bN bS s = Inr s'"
  shows "reach_inv g0 isD bN bS sId (fst s')"
proof -
  obtain g pq where s: "s = (g, pq)" by (cases s)
  from sinv ne have sinv': "search_inv isD bN bS src (g, pq)" and ne': "pq \<noteq> []"
    by (simp_all add: s)
  from search_inv_top[OF sinv' ne'] obtain u where u:
    "findLocation g (snd (pq_top pq)) = Some u" "u < length g"
    "loc_id (g ! u) = snd (pq_top pq)" "distance (g ! u) \<le> fst (pq_top pq)"
    "fst (pq_top pq) < INF_int" by blast
  show ?thesis
  proof (cases "fst (pq_top pq) > distance (g ! u) \<or> snd (pq_top pq) \<in> bN")
    case True
    then have "dijkstra_step isD bN bS s = Inr (g, pq_pop pq)"
      using u(1) by (auto simp: dijkstra_step_def s Let_def)
    with st inv show ?thesis by (auto simp: s)
  next
    case False
    then have "dijkstra_step isD bN bS s =
        Inr (fold (\<lambda>road s'. relax isD bS (fst (pq_top pq)) (snd (pq_top pq)) s' road)
               (adj (g ! u)) (g, pq_pop pq))"
      using u(1) by (auto simp: dijkstra_step_def s Let_def)
    with st have s': "s' = fold (\<lambda>road s'. relax isD bS (fst (pq_top pq)) (snd (pq_top pq)) s' road)
               (adj (g ! u)) (g, pq_pop pq)" by simp
    have "distance (g ! u) < INF_int" using u(4,5) by simp
    with inv u(2,3) obtain q where
      q: "route_avoiding g0 isD bN bS sId (snd (pq_top pq)) q"
      by (auto simp: reach_inv_def s)
    have nb: "snd (pq_top pq) \<notin> bN" using False by simp
    from inv sn have "reach_inv g0 isD bN bS sId g" "same_network g0 g" by (simp_all add: s)
    from reach_inv_fold[OF this u(2,3) nb q subset_refl]
    show ?thesis unfolding s' .
  qed
qed

lemma reach_inv_loop:
  assumes "search_inv isD bN bS src s" and "reach_inv g0 isD bN bS sId (fst s)"
    and "same_network g0 (fst s)" and "dijkstra_loop isD bN bS s = Inr g'"
  shows "reach_inv g0 isD bN bS sId g'"
  using assms
proof (induction isD bN bS s rule: dijkstra_loop.induct)
  case (1 isD bN bS s)
  show ?case
  proof (cases "snd s = []")
    case True
    with "1.prems"(4) have "g' = fst s" by simp
    with "1.prems"(2) show ?thesis by simp
  next
    case False
    from search_inv_step[OF "1.prems"(1) False] obtain s' where
      st: "dijkstra_step isD bN bS s = Inr s'" and sinv': "search_inv isD bN bS src s'" by blast
    have l: "dijkstra_loop isD bN bS s' = Inr g'"
      using "1.prems"(4) False st by (subst (asm) dijkstra_loop.simps) simp
    have inv': "reach_inv g0 isD bN bS sId (fst s')"
      using reach_inv_step[OF "1.prems"(1) False "1.prems"(2,3) st] .
    have sn': "same_network g0 (fst s')"
      using "1.prems"(3) dijkstra_step_same_network[OF st] by (rule same_network_trans)
    from "1.IH"[OF False st sinv' inv' sn' l] show ?thesis .
  qed
qed

lemma dijkstra_search_reach:
  assumes wf: "wf_graph g" and s: "dijkstra_search g sId isD bN bS = Inr g'"
    and v: "v < length g'" "distance (g' ! v) \<noteq> INF_int"
  shows "\<exists>q. route_avoiding g isD bN bS sId (loc_id (g' ! v)) q"
proof -
  let ?g0 = "init_locations g"
  from s obtain src where f0: "findLocation ?g0 sId = Some src"
    and l: "dijkstra_loop isD bN bS (?g0[src := (?g0 ! src)\<lparr>distance := 0\<rparr>], [(0, sId)]) = Inr g'"
    by (auto simp: dijkstra_search_def Let_def split: option.splits)
  let ?g1 = "?g0[src := (?g0 ! src)\<lparr>distance := 0\<rparr>]"
  have f: "findLocation g sId = Some src"
    using findLocation_same_network[OF same_network_init[of g], of sId] f0 by simp
  from findLocation_Some[OF f] have src: "src < length g" "loc_id (g ! src) = sId" by simp_all
  have sn: "same_network g ?g1"
    using same_network_init[of g] same_network_update_distance[of ?g0 src 0]
    by (rule same_network_trans)
  have sinv: "search_inv isD bN bS src (?g1, [(0, sId)])" using search_inv_init[OF wf f] .
  have d: "distance (?g1 ! w) = (if w = src then 0 else INF_int)" if "w < length g" for w
    using that src(1) by (auto simp: nth_list_update init_locations_nth)
  have i: "loc_id (?g1 ! src) = sId" using same_network_nth(1)[OF sn src(1)] src(2) by simp
  have r0: "route_avoiding g isD bN bS sId sId [sId]"
    by (simp add: route_avoiding_def path_edges_def)
  have inv: "reach_inv g isD bN bS sId ?g1"
    unfolding reach_inv_def using r0 i by (auto simp: d split: if_splits)
  from reach_inv_loop[of isD bN bS src "(?g1, [(0, sId)])" g sId g'] sinv inv sn l
  have "reach_inv g isD bN bS sId g'" by simp
  moreover have "distance (g' ! v) \<le> INF_int"
    using search_inv_loop[OF sinv] l v(1) by (auto simp: search_inv_def)
  ultimately show ?thesis using v by (auto simp: reach_inv_def)
qed

text \<open>
  Without a route the destination keeps the distance \<open>INF\<close>, and the call returns the
  empty result.
\<close>

lemma dijkstra_no_route:
  assumes wf: "wf_graph g" and s: "s \<in> set (map loc_id g)" and d: "d \<in> set (map loc_id g)"
    and no: "\<And>q. \<not> route_avoiding g isD bN bS s d q"
  shows "\<exists>g'. dijkstra g s d isD bN bS = Some (Inr (([], 0), g', bS))"
proof -
  from findLocation_member[OF s] obtain src where src: "findLocation g s = Some src" by blast
  from dijkstra_search_inv[OF wf src, of isD bN bS] obtain g' where
    g': "dijkstra_search g s isD bN bS = Inr g'" "same_network g g'" by blast
  from findLocation_member[OF d] obtain dst where "findLocation g d = Some dst" by blast
  then have dst: "findLocation g' d = Some dst"
    using findLocation_same_network[OF g'(2), of d] by simp
  from findLocation_Some[OF dst] have dl: "dst < length g'" "loc_id (g' ! dst) = d" by simp_all
  have "distance (g' ! dst) = INF_int"
    using dijkstra_search_reach[OF wf g'(1) dl(1)] no dl(2) by auto
  then show ?thesis using g'(1) dst by (simp add: dijkstra_def Let_def)
qed

text \<open>Under the bound on the costs every call with endpoints in the graph returns.\<close>

lemma dijkstra_total:
  assumes wf: "wf_graph g" and costs: "costs_ok g isD W"
    and s: "s \<in> set (map loc_id g)" and d: "d \<in> set (map loc_id g)"
  shows "\<exists>r g' bS'. dijkstra g s d isD bN bS = Some (Inr (r, g', bS'))"
proof -
  from findLocation_member[OF s] obtain src where src: "findLocation g s = Some src" by blast
  from dijkstra_search_inv[OF wf src, of isD bN bS] obtain g' where
    g': "dijkstra_search g s isD bN bS = Inr g'" "same_network g g'" by blast
  from findLocation_member[OF d] obtain dst where "findLocation g d = Some dst" by blast
  then have dst: "findLocation g' d = Some dst"
    using findLocation_same_network[OF g'(2), of d] by simp
  show ?thesis
  proof (cases "distance (g' ! dst) = INF_int")
    case True
    then show ?thesis using g'(1) dst by (simp add: dijkstra_def Let_def)
  next
    case False
    from dijkstra_search_chain[OF wf costs g'(1) dst False] obtain rs where
      "parent_chain g' s dst rs" by blast
    from reconstruct_chain[OF this, of "[loc_id (g' ! dst)]" bS]
    show ?thesis using g'(1) dst False by (simp add: dijkstra_def Let_def)
  qed
qed

text \<open>A call that returns a result was given two locations of the graph.\<close>

lemma dijkstra_endpoints:
  assumes "dijkstra g s d isD bN bS = Some (Inr (r, g', bS'))"
  shows "s \<in> set (map loc_id g)" "d \<in> set (map loc_id g)"
proof -
  from assms obtain g2 where s2: "dijkstra_search g s isD bN bS = Inr g2"
    by (auto simp: dijkstra_def split: sum.splits)
  then obtain src where "findLocation g s = Some src"
    using findLocation_same_network[OF same_network_init[of g], of s]
    by (auto simp: dijkstra_search_def Let_def split: option.splits)
  from findLocation_Some[OF this] show "s \<in> set (map loc_id g)" by auto
  from assms s2 obtain dst where "findLocation g2 d = Some dst"
    by (auto simp: dijkstra_def split: option.splits)
  then have "findLocation g d = Some dst"
    using findLocation_same_network[OF dijkstra_search_same_network[OF s2], of d] by simp
  from findLocation_Some[OF this] show "d \<in> set (map loc_id g)" by auto
qed

section \<open>Example networks\<close>

text \<open>
  The network of the specification's scenario: \<open>A\<close> (1), \<open>B\<close> (2, parking) and
  \<open>C\<close> (3), with the roads \<open>A-B\<close> (drive 5, walk 20) and \<open>B-C\<close> (drive 4,
  walk 3).
\<close>

definition abc_locations :: Graph where
  "abc_locations =
     addLocation (addLocation (addLocation [] 1 ''A'' False) 2 ''B'' True) 3 ''C'' False"

definition abc_network :: Graph where
  "abc_network = addRoad (addRoad abc_locations 0 1 5 20) 1 2 4 3"

text \<open>An eco-mode output that carries exactly one suggestion.\<close>

definition one_suggestion_output :: Output where
  "one_suggestion_output =
     \<lparr>sourceId = 1, destId = 3, bestPath = ([1, 2], 5), altPath = ([2, 3], 3),
      parkingNode_o = 2, totalTime_o = 8, TypeOfInput = 2, hasSuggestions = True,
      suggestions = [\<lparr>drivePath = [1, 2], walkPath = [2, 3], parkingNode = 2,
                      totalTime = 8, walkingTime_s = 3, exceedWalkingBy = 2\<rparr>],
      maxWalkingTime = 1\<rparr>"

text \<open>The transient state a search from 1 leaves on the example network.\<close>

definition abc_searched :: Graph where
  "abc_searched =
     [\<lparr>loc_id = 1, code = ''A'', hasParking = False,
       adj = [\<lparr>origin = 0, destination = 1, drivingTime = 5, walkingTime = 20\<rparr>],
       parent = None, distance = 0\<rparr>,
      \<lparr>loc_id = 2, code = ''B'', hasParking = True,
       adj = [\<lparr>origin = 1, destination = 0, drivingTime = 5, walkingTime = 20\<rparr>,
              \<lparr>origin = 1, destination = 2, drivingTime = 4, walkingTime = 3\<rparr>],
       parent = Some \<lparr>origin = 0, destination = 1, drivingTime = 5, walkingTime = 20\<rparr>,
       distance = 5\<rparr>,
      \<lparr>loc_id = 3, code = ''C'', hasParking = False,
       adj = [\<lparr>origin = 2, destination = 1, drivingTime = 4, walkingTime = 3\<rparr>],
       parent = Some \<lparr>origin = 1, destination = 2, drivingTime = 4, walkingTime = 3\<rparr>,
       distance = 9\<rparr>]"

text \<open>
  The transient state the eco route from 1 to 3 leaves on the example network: the
  state of its last search, the walk from 2 with the segment (1, 2) blocked.
\<close>

definition abc_walked :: Graph where
  "abc_walked =
     [\<lparr>loc_id = 1, code = ''A'', hasParking = False,
       adj = [\<lparr>origin = 0, destination = 1, drivingTime = 5, walkingTime = 20\<rparr>],
       parent = Some \<lparr>origin = 1, destination = 0, drivingTime = 5, walkingTime = 20\<rparr>,
       distance = 20\<rparr>,
      \<lparr>loc_id = 2, code = ''B'', hasParking = True,
       adj = [\<lparr>origin = 1, destination = 0, drivingTime = 5, walkingTime = 20\<rparr>,
              \<lparr>origin = 1, destination = 2, drivingTime = 4, walkingTime = 3\<rparr>],
       parent = None, distance = 0\<rparr>,
      \<lparr>loc_id = 3, code = ''C'', hasParking = False,
       adj = [\<lparr>origin = 2, destination = 1, drivingTime = 4, walkingTime = 3\<rparr>],
       parent = Some \<lparr>origin = 1, destination = 2, drivingTime = 4, walkingTime = 3\<rparr>,
       distance = 3\<rparr>]"

text \<open>A network with a single location and no road.\<close>

definition lone_network :: Graph where
  "lone_network = addLocation [] 1 ''A'' False"

text \<open>
  Four locations and two routes from 1 to 4 that share no road: over 2 (drive 5 + 1,
  walk 50 + 10) and over 3 (drive 6 + 1, walk 60 + 5).  \<open>diamond_first\<close> and
  \<open>diamond_second\<close> are the graph as the first and the second search from 1 to 4
  leave it.
\<close>

definition diamond_network :: Graph where
  "diamond_network =
     addRoad (addRoad (addRoad (addRoad
       (addLocation (addLocation (addLocation (addLocation [] 1 ''A'' False)
          2 ''B'' True) 3 ''C'' True) 4 ''D'' False)
       0 1 5 50) 1 3 1 10) 0 2 6 60) 2 3 1 5"

definition diamond_first :: Graph where
  "diamond_first =
     (case dijkstra diamond_network 1 4 True {} {} of
        Some (Inr (r, g, bS)) \<Rightarrow> g | _ \<Rightarrow> [])"

definition diamond_second :: Graph where
  "diamond_second =
     (case dijkstra diamond_first 1 4 True {} {(1, 2), (2, 4)} of
        Some (Inr (r, g, bS)) \<Rightarrow> g | _ \<Rightarrow> [])"

text \<open>The graph as the eco route from 1 to 4 with a budget of 20 leaves it.\<close>

definition diamond_eco :: Graph where
  "diamond_eco =
     (case EnvironmentallyFriendlyRoute (sort_key totalTime) diamond_network 1 4 20 {} {} of
        Some (Inr (r, g, aS)) \<Rightarrow> g | _ \<Rightarrow> [])"

text \<open>All costs of the network are non-negative.\<close>

definition nonneg_costs :: "Graph \<Rightarrow> bool" where
  "nonneg_costs g =
     list_all (\<lambda>l. list_all (\<lambda>r. 0 \<le> drivingTime r \<and> 0 \<le> walkingTime r) (adj l)) g"

text \<open>
  Networks with large costs.  In \<open>far_network\<close> the route from 1 to 3 costs
  \<open>1 + 2147483646\<close>, which is \<open>INF\<close>.  In \<open>long_network\<close> the road between
  1 and 2 costs \<open>2^30\<close>, in \<open>cycle_network\<close> the road between 2 and 3;
  going over such a road and back overflows.  \<open>cycle_searched\<close> is
  \<open>cycle_network\<close> as the search from 1 leaves it.
\<close>

definition far_network :: Graph where
  "far_network = addRoad (addRoad abc_locations 0 1 1 1) 1 2 2147483646 1"

definition long_network :: Graph where
  "long_network =
     addRoad (addLocation (addLocation [] 1 ''A'' False) 2 ''B'' False) 0 1 1073741824 1"

definition cycle_network :: Graph where
  "cycle_network = addRoad (addRoad abc_locations 0 1 1 1) 1 2 1073741824 1"

definition cycle_searched :: Graph where
  "cycle_searched =
     [\<lparr>loc_id = 1, code = ''A'', hasParking = False,
       adj = [\<lparr>origin = 0, destination = 1, drivingTime = 1, walkingTime = 1\<rparr>],
       parent = Some \<lparr>origin = 1, destination = 0, drivingTime = 1, walkingTime = 1\<rparr>,
       distance = - 2147483646\<rparr>,
      \<lparr>loc_id = 2, code = ''B'', hasParking = True,
       adj = [\<lparr>origin = 1, destination = 0, drivingTime = 1, walkingTime = 1\<rparr>,
              \<lparr>origin = 1, destination = 2, drivingTime = 1073741824, walkingTime = 1\<rparr>],
       parent = Some \<lparr>origin = 2, destination = 1, drivingTime = 1073741824, walkingTime = 1\<rparr>,
       distance = - 2147483647\<rparr>,
      \<lparr>loc_id = 3, code = ''C'', hasParking = False,
       adj = [\<lparr>origin = 2, destination = 1, drivingTime = 1073741824, walkingTime = 1\<rparr>],
       parent = Some \<lparr>origin = 1, destination = 2, drivingTime = 1073741824, walkingTime = 1\<rparr>,
       distance = - 1073741823\<rparr>]"

lemma cycle_no_chain:
  "parent_chain cycle_searched 1 cur rs \<Longrightarrow> cur = 1 \<or> cur = 2 \<Longrightarrow> False"
proof (induction rule: parent_chain.induct)
  case (stop cur)
  then show ?case by (auto simp: cycle_searched_def)
next
  case (step cur r rs)
  from step(1,5) have "origin r = 1 \<or> origin r = 2" by (auto simp: cycle_searched_def)
  with step.IH show ?case by simp
qed

text \<open>The example network as the search from 2 with 2 blocked leaves it.\<close>

definition abc_blocked :: Graph where
  "abc_blocked =
     (case dijkstra_search abc_network 2 True {2} {(1, 2)} of Inr g \<Rightarrow> g | Inl e \<Rightarrow> [])"

section \<open>C1: reachable pairs with nothing blocked\<close>

text \<open>
  C1 as stated: for every graph and every reachable pair with nothing blocked,
  \<open>dijkstra\<close> returns a path from the source to the destination whose summed costs
  equal the returned total.  \<open>INF\<close> marks both an unusable road and an unreached
  location, so a destination whose only route costs \<open>INF\<close> or more is reported as
  not reached: in \<open>far_network\<close> the route \<open>[1, 2, 3]\<close> exists, no addition
  overflows, and the search from 1 to 3 returns no path.
\<close>

theorem dijkstra_route_cost_reaches_INF:
  "wf_graph far_network \<and> nonneg_costs far_network \<and>
   route_avoiding far_network True {} {} 1 3 [1, 2, 3] \<and>
   map_option (map_sum id fst) (dijkstra far_network 1 3 True {} {}) = Some (Inr ([], 0))"
  by code_simp

text \<open>
  C1, amended: on a well-formed graph whose usable costs of the selected mode are
  non-negative and at most \<open>W\<close>, with \<open>W\<close> times the number of locations below
  \<open>INF\<close>, for every source of the graph and every destination to which some route
  \<open>q\<close> over usable roads leads, \<open>dijkstra\<close> with nothing blocked returns a
  non-empty path that starts at the source and ends at the destination, and the costs
  of the roads \<open>rs\<close> along the path (driving time when \<open>isD\<close> holds, walking time
  otherwise) sum up to the returned total.
\<close>

theorem dijkstra_finds_route:
  assumes wf: "wf_graph g" and costs: "costs_ok g isD W" and s: "s \<in> set (map loc_id g)"
    and q: "route_avoiding g isD {} {} s d q"
  shows "\<exists>p c g' bS' rs. dijkstra g s d isD {} {} = Some (Inr ((p, c), g', bS')) \<and>
           p \<noteq> [] \<and> hd p = s \<and> last p = d \<and>
           path_roads g p rs \<and> sum_list (map (edge_cost isD) rs) = c"
proof -
  from findLocation_member[OF s] obtain src where src: "findLocation g s = Some src" by blast
  from dijkstra_search_dij_inv[OF wf costs src, of "{}" "{}"] obtain g' ds where
    ds: "dijkstra_search g s isD {} {} = Inr g'" "same_network g g'"
    "search_inv isD {} {} src (g', [])" "dij_inv isD {} {} W src ds {} (g', [])" by blast
  note D = dij_invD[OF ds(4)]
  have wf': "wf_graph g'" using wf ds(2) by (rule wf_graph_same_network)
  from findLocation_Some[OF src] have srcl: "src < length g" "loc_id (g ! src) = s" by simp_all
  have src': "loc_id (g' ! src) = s" using same_network_nth(1)[OF ds(2) srcl(1)] srcl(2) by simp
  have srcd: "src \<in> set ds"
    using D(12) D(4) srcl(1) same_network_length[OF ds(2)] by (auto simp: INF_int_def)
  from q have q': "q \<noteq> []" "hd q = s" "last q = d"
    and qe: "list_all (road_between g isD) (path_edges q)"
    by (simp_all add: route_avoiding_def list_all_iff)
  have "list_all (road_between g' isD) (path_edges q)"
    using qe road_between_same_network[OF same_network_sym[OF ds(2)]] by (simp add: list_all_iff)
  from route_reaches[OF ds(4) wf' srcd _ q'(1) this] src' q'(2,3)
  obtain dst where dst: "dst \<in> set ds" "loc_id (g' ! dst) = d" by auto
  have dl: "dst < length g'" using D(3) dst(1) by blast
  have fd: "findLocation g' d = Some dst"
    using findLocation_distinct[OF wf_graph_distinct[OF wf'] dl] dst(2) by simp
  have fin: "distance (g' ! dst) \<noteq> INF_int" using dij_inv_done_finite(2)[OF ds(4) dst(1)] by simp
  from dijkstra_search_chain[OF wf costs ds(1) fd fin] obtain rs where rs:
    "parent_chain g' s dst rs" "last (chain_ids g' dst rs) = s"
    "distance (g' ! dst) = sum_list (map (edge_cost isD) rs)"
    "path_roads g (rev (chain_ids g' dst rs)) (rev rs)" by blast
  from reconstruct_chain[OF rs(1), of "[loc_id (g' ! dst)]" "{}"]
  have rc: "reconstruct g' s dst [loc_id (g' ! dst)] {}
          = Some (chain_ids g' dst rs, set (map (road_pair g') rs))"
    by (simp add: chain_ids_def)
  let ?p = "rev (chain_ids g' dst rs)"
  have res: "dijkstra g s d isD {} {}
      = Some (Inr ((?p, distance (g' ! dst)), g', set (map (road_pair g') rs)))"
    using ds(1) fd fin rc by (simp add: dijkstra_def Let_def)
  have "?p \<noteq> []" "hd ?p = s" "last ?p = d"
    using rs(2) dst(2) by (simp_all add: hd_rev last_rev)
  moreover have "sum_list (map (edge_cost isD) (rev rs)) = distance (g' ! dst)"
    using rs(3) by (simp add: rev_map[symmetric])
  ultimately show ?thesis using res rs(4) by blast
qed

theorem dijkstra_finds_route_witness:
  "wf_graph abc_network \<and> costs_ok abc_network True 5 \<and> 1 \<in> set (map loc_id abc_network) \<and>
   route_avoiding abc_network True {} {} 1 3 [1, 2, 3] \<and>
   dijkstra abc_network 1 3 True {} {}
     = Some (Inr (([1, 2, 3], 9), abc_searched, {(1, 2), (2, 3)})) \<and>
   path_roads abc_network [1, 2, 3]
     [\<lparr>origin = 0, destination = 1, drivingTime = 5, walkingTime = 20\<rparr>,
      \<lparr>origin = 1, destination = 2, drivingTime = 4, walkingTime = 3\<rparr>] \<and>
   sum_list (map (edge_cost True)
     [\<lparr>origin = 0, destination = 1, drivingTime = 5, walkingTime = 20\<rparr>,
      \<lparr>origin = 1, destination = 2, drivingTime = 4, walkingTime = 3\<rparr>]) = 9"
proof -
  have w: "wf_graph abc_network" by code_simp
  have c: "costs_ok abc_network True 5" by code_simp
  have s: "1 \<in> set (map loc_id abc_network)" by code_simp
  have q: "route_avoiding abc_network True {} {} 1 3 [1, 2, 3]" by code_simp
  have h: "dijkstra abc_network 1 3 True {} {}
     = Some (Inr (([1, 2, 3], 9), abc_searched, {(1, 2), (2, 3)}))" by code_simp
  have r: "path_roads abc_network [1, 2, 3]
     [\<lparr>origin = 0, destination = 1, drivingTime = 5, walkingTime = 20\<rparr>,
      \<lparr>origin = 1, destination = 2, drivingTime = 4, walkingTime = 3\<rparr>] \<and>
   sum_list (map (edge_cost True)
     [\<lparr>origin = 0, destination = 1, drivingTime = 5, walkingTime = 20\<rparr>,
      \<lparr>origin = 1, destination = 2, drivingTime = 4, walkingTime = 3\<rparr>]) = 9" by code_simp
  from dijkstra_finds_route[OF w c s q] w c s q h r show ?thesis by simp
qed

section \<open>C2: the segments of the returned path are blocked afterwards\<close>



section \<open>C3: two calls that share the set of blocked segments\<close>

text \<open>
  C3 as stated: two calls in sequence with the same mutable set return paths with
  disjoint edge sets, and when there is no alternative the second call returns no path,
  never a duplicate of the first.  That fails when source and destination are the same
  location: on a network with one location and no road the first call returns the
  path \<open>[1]\<close>, and the second call, on the graph \<open>g1\<close> and with the set
  \<open>bS1\<close> the first call left, returns the same path with the same cost again.
\<close>

theorem dijkstra_same_endpoints_duplicate:
  "(case dijkstra lone_network 1 1 True {} {} of
      Some (Inr (first, g1, bS1)) \<Rightarrow>
        fst first = [1] \<and>
        map_option (map_sum id fst) (dijkstra g1 1 1 True {} bS1) = Some (Inr first)
    | _ \<Rightarrow> False) \<and>
   concat (map adj lone_network) = []"
  by code_simp

text \<open>
  C3, amended to source \<open>\<noteq>\<close> destination.  Let the first call return a non-empty
  path \<open>p1\<close> and leave the graph \<open>g1\<close> and the set \<open>bS1\<close>; the second call
  is the same query on \<open>g1\<close> with \<open>bS1\<close>.  An alternative is a route from source
  to destination along usable roads that leaves no blocked location and uses neither a
  segment blocked before the first call nor a directed edge of \<open>p1\<close>.
  \<^item> Whatever the second call returns is not \<open>p1\<close> again and has no directed edge in
    common with \<open>p1\<close>; when it is a path, it is an alternative.
  \<^item> When no alternative exists, the second call returns, and returns no path; the
    set of blocked segments stays as the first call left it.
  \<^item> When the usable costs of the selected mode are non-negative and at most \<open>W\<close>,
    with \<open>W\<close> times the number of locations below \<open>INF\<close>, the second call
    returns.  (With larger costs the sums can overflow and a call may then never
    return: the search from 1 to 3 in \<open>cycle_network\<close> does not.)
\<close>

theorem dijkstra_second_call_alternative:
  assumes wf: "wf_graph g" and sd: "s \<noteq> d"
    and first: "dijkstra g s d isD bN bS = Some (Inr ((p1, c1), g1, bS1))"
    and ne: "p1 \<noteq> []"
  shows "(\<forall>p2 c2 g2 bS2. dijkstra g1 s d isD bN bS1 = Some (Inr ((p2, c2), g2, bS2)) \<longrightarrow>
            p2 \<noteq> p1 \<and> set (path_edges p1) \<inter> set (path_edges p2) = {} \<and>
            (p2 = [] \<or> route_avoiding g isD bN (bS \<union> set (path_edges p1)) s d p2)) \<and>
         ((\<forall>q. \<not> route_avoiding g isD bN (bS \<union> set (path_edges p1)) s d q) \<longrightarrow>
            (\<exists>g2. dijkstra g1 s d isD bN bS1 = Some (Inr (([], 0), g2, bS1)))) \<and>
         (costs_ok g isD W \<longrightarrow>
            (\<exists>r g2 bS2. dijkstra g1 s d isD bN bS1 = Some (Inr (r, g2, bS2))))"
proof -
  note s1 = dijkstra_path_sound[OF wf first ne]
  have sn: "same_network g g1" using first by (rule dijkstra_same_network)
  have wf1: "wf_graph g1" using wf sn by (rule wf_graph_same_network)
  have ids: "s \<in> set (map loc_id g1)" "d \<in> set (map loc_id g1)"
    using dijkstra_endpoints[OF first] same_network_ids[OF sn] by simp_all
  have 1: "p2 \<noteq> p1 \<and> set (path_edges p1) \<inter> set (path_edges p2) = {} \<and>
           (p2 = [] \<or> route_avoiding g isD bN (bS \<union> set (path_edges p1)) s d p2)"
    if second: "dijkstra g1 s d isD bN bS1 = Some (Inr ((p2, c2), g2, bS2))" for p2 c2 g2 bS2
  proof (cases "p2 = []")
    case True
    with ne show ?thesis by (auto simp: path_edges_def)
  next
    case False
    note s2 = dijkstra_path_sound[OF wf1 second False]
    have e2: "e \<notin> bS \<union> set (path_edges p1) \<and> fst e \<notin> bN \<and> road_between g isD e"
      if "e \<in> set (path_edges p2)" for e
      using s2(4)[OF that] s1(3) road_between_same_network[OF sn] by auto
    then have disj: "set (path_edges p1) \<inter> set (path_edges p2) = {}" by auto
    have "path_edges p1 \<noteq> []"
      using s1(1,2) sd ne by (cases p1; cases "tl p1") (auto simp: path_edges_def)
    with disj have "p2 \<noteq> p1" by (cases "path_edges p1") auto
    moreover have "route_avoiding g isD bN (bS \<union> set (path_edges p1)) s d p2"
      using False s2(1,2) e2 by (simp add: route_avoiding_def list_all_iff)
    ultimately show ?thesis using disj by simp
  qed
  have 2: "\<exists>g2. dijkstra g1 s d isD bN bS1 = Some (Inr (([], 0), g2, bS1))"
    if no: "\<forall>q. \<not> route_avoiding g isD bN (bS \<union> set (path_edges p1)) s d q"
  proof -
    have "\<not> route_avoiding g1 isD bN bS1 s d q" for q
      using no route_avoiding_same_network[OF sn, of isD bN bS1 s d q] s1(3) by auto
    from dijkstra_no_route[OF wf1 ids this] show ?thesis .
  qed
  have 3: "\<exists>r g2 bS2. dijkstra g1 s d isD bN bS1 = Some (Inr (r, g2, bS2))"
    if "costs_ok g isD W"
    using dijkstra_total[OF wf1 costs_ok_same_network[OF that sn] ids] .
  show ?thesis using 1 2 3 by blast
qed

text \<open>
  In the network with two routes the second call returns the other route; in the
  example network, whose only route from 1 to 3 the first call has taken, it returns no
  path.
\<close>

theorem dijkstra_second_call_alternative_witness:
  "wf_graph diamond_network \<and> costs_ok diamond_network True 6 \<and>
   dijkstra diamond_network 1 4 True {} {}
     = Some (Inr (([1, 2, 4], 6), diamond_first, {(1, 2), (2, 4)})) \<and>
   dijkstra diamond_first 1 4 True {} {(1, 2), (2, 4)}
     = Some (Inr (([1, 3, 4], 7), diamond_second, {(1, 2), (2, 4), (1, 3), (3, 4)})) \<and>
   set (path_edges [1, 2, 4]) \<inter> set (path_edges [1, 3, 4]) = {} \<and>
   route_avoiding diamond_network True {} ({} \<union> set (path_edges [1, 2, 4])) 1 4 [1, 3, 4] \<and>
   wf_graph abc_network \<and>
   dijkstra abc_network 1 3 True {} {}
     = Some (Inr (([1, 2, 3], 9), abc_searched, {(1, 2), (2, 3)})) \<and>
   (\<forall>q. \<not> route_avoiding abc_network True {} ({} \<union> set (path_edges [1, 2, 3])) 1 3 q) \<and>
   (\<exists>g2. dijkstra abc_searched 1 3 True {} {(1, 2), (2, 3)}
            = Some (Inr (([], 0), g2, {(1, 2), (2, 3)})))"
proof -
  have w: "wf_graph diamond_network" by code_simp
  have c: "costs_ok diamond_network True 6" by code_simp
  have sd: "(1::int) \<noteq> 4" by simp
  have h1: "dijkstra diamond_network 1 4 True {} {}
     = Some (Inr (([1, 2, 4], 6), diamond_first, {(1, 2), (2, 4)}))" by code_simp
  have ne: "[1, 2, 4] \<noteq> ([]::int list)" by simp
  have h2: "dijkstra diamond_first 1 4 True {} {(1, 2), (2, 4)}
     = Some (Inr (([1, 3, 4], 7), diamond_second, {(1, 2), (2, 4), (1, 3), (3, 4)}))" by code_simp
  note diamond = dijkstra_second_call_alternative[OF w sd h1 ne, of 6]
  have w': "wf_graph abc_network" by code_simp
  have sd': "(1::int) \<noteq> 3" by simp
  have h': "dijkstra abc_network 1 3 True {} {}
     = Some (Inr (([1, 2, 3], 9), abc_searched, {(1, 2), (2, 3)}))" by code_simp
  have ne': "[1, 2, 3] \<noteq> ([]::int list)" by simp
  have no: "\<not> route_avoiding abc_network True {} ({} \<union> set (path_edges [1, 2, 3])) 1 3 q" for q
  proof
    assume r: "route_avoiding abc_network True {} ({} \<union> set (path_edges [1, 2, 3])) 1 3 q"
    then obtain b q' where q: "q = 1 # b # q'"
      by (cases q; cases "tl q") (auto simp: route_avoiding_def)
    with r have "(1, b) \<notin> set (path_edges [1, 2, 3])" "road_between abc_network True (1, b)"
      by (simp_all add: route_avoiding_def path_edges_def)
    then show False
      by (auto simp: path_edges_def road_between_def abc_network_def abc_locations_def
          addRoad_def addLocation_def edge_cost_def INF_int_def Let_def)
  qed
  note abc = dijkstra_second_call_alternative[OF w' sd' h' ne', of 0]
  from diamond abc w c h1 h2 w' h' no show ?thesis by simp
qed

section \<open>C4: a blocked destination\<close>

text \<open>
  C4 as stated: when the destination is a member of \<open>blockedNodes\<close>, \<open>dijkstra\<close>
  returns no path.  The loop skips a blocked location only when it is popped, so the
  location is still relaxed into: on the example network the search from 1 to 2 with 2
  blocked returns the path \<open>[1, 2]\<close>.
\<close>

theorem dijkstra_blocked_destination_reached:
  "map_option (map_sum id fst) (dijkstra abc_network 1 2 True {2} {}) = Some (Inr ([1, 2], 5))"
  by code_simp

text \<open>
  C4, amended: a blocked location is never left, but it can be entered.  On a
  well-formed graph, for every query between two locations of the graph:
  \<^item> when the source is a member of \<open>blockedNodes\<close> and differs from the destination,
    \<open>dijkstra\<close> returns, and returns no path;
  \<^item> whatever \<open>dijkstra\<close> returns, also for a destination in \<open>blockedNodes\<close>, is
    either no path or a path that ends in the destination and none of whose other
    locations is a member of \<open>blockedNodes\<close>;
  \<^item> when the usable costs of the selected mode are non-negative and at most \<open>W\<close>,
    with \<open>W\<close> times the number of locations below \<open>INF\<close>, \<open>dijkstra\<close>
    returns.  (With larger costs the sums can overflow and a call may then never
    return: the search from 1 to 3 in \<open>cycle_network\<close> does not.)
\<close>

theorem dijkstra_blocked_nodes_not_left:
  assumes wf: "wf_graph g" and s: "s \<in> set (map loc_id g)" and d: "d \<in> set (map loc_id g)"
  shows "(s \<in> bN \<and> s \<noteq> d \<longrightarrow>
            (\<exists>g'. dijkstra g s d isD bN bS = Some (Inr (([], 0), g', bS)))) \<and>
         (\<forall>p c g' bS'. dijkstra g s d isD bN bS = Some (Inr ((p, c), g', bS')) \<longrightarrow>
            p = [] \<or> (last p = d \<and> set (butlast p) \<inter> bN = {})) \<and>
         (costs_ok g isD W \<longrightarrow>
            (\<exists>r g' bS'. dijkstra g s d isD bN bS = Some (Inr (r, g', bS'))))"
proof -
  have 1: "\<exists>g'. dijkstra g s d isD bN bS = Some (Inr (([], 0), g', bS))"
    if b: "s \<in> bN" and sd: "s \<noteq> d"
  proof -
    have "\<not> route_avoiding g isD bN bS s d q" for q
    proof
      assume r: "route_avoiding g isD bN bS s d q"
      with sd obtain x q' where q: "q = s # x # q'"
        by (cases q; cases "tl q") (auto simp: route_avoiding_def)
      with r have "s \<notin> bN" by (simp add: route_avoiding_def path_edges_def)
      with b show False by simp
    qed
    from dijkstra_no_route[OF wf s d this] show ?thesis .
  qed
  have 2: "p = [] \<or> (last p = d \<and> set (butlast p) \<inter> bN = {})"
    if res: "dijkstra g s d isD bN bS = Some (Inr ((p, c), g', bS'))" for p c g' bS'
  proof (cases "p = []")
    case True
    then show ?thesis by simp
  next
    case False
    note snd = dijkstra_path_sound[OF wf res False]
    have "set (butlast p) = fst ` set (path_edges p)"
      using path_edges_fst[of p, symmetric] by (metis set_map)
    with snd(4) have "set (butlast p) \<inter> bN = {}" by auto
    with snd(2) show ?thesis by simp
  qed
  have 3: "\<exists>r g' bS'. dijkstra g s d isD bN bS = Some (Inr (r, g', bS'))" if "costs_ok g isD W"
    using dijkstra_total[OF wf that s d] .
  show ?thesis using 1 2 3 by blast
qed

text \<open>
  On the example network with 2 blocked: the search from 1 to 2 enters the blocked
  destination, the search from 2 to 3 does not leave the blocked source.
\<close>

theorem dijkstra_blocked_nodes_not_left_witness:
  "wf_graph abc_network \<and> costs_ok abc_network True 5 \<and>
   1 \<in> set (map loc_id abc_network) \<and> 2 \<in> set (map loc_id abc_network) \<and>
   3 \<in> set (map loc_id abc_network) \<and>
   dijkstra abc_network 1 2 True {2} {}
     = Some (Inr (([1, 2], 5),
          (case dijkstra_search abc_network 1 True {2} {} of Inr g \<Rightarrow> g | Inl e \<Rightarrow> []),
          {(1, 2)})) \<and>
   last [1, 2] = (2::int) \<and> set (butlast [1, 2]) \<inter> {2::int} = {} \<and>
   (2::int) \<in> {2} \<and> (2::int) \<noteq> 3 \<and>
   (\<exists>g'. dijkstra abc_network 2 3 True {2} {} = Some (Inr (([], 0), g', {})))"
proof -
  have w: "wf_graph abc_network" by code_simp
  have c: "costs_ok abc_network True 5" by code_simp
  have i1: "1 \<in> set (map loc_id abc_network)" by code_simp
  have i2: "2 \<in> set (map loc_id abc_network)" by code_simp
  have i3: "3 \<in> set (map loc_id abc_network)" by code_simp
  have h: "dijkstra abc_network 1 2 True {2} {}
     = Some (Inr (([1, 2], 5),
          (case dijkstra_search abc_network 1 True {2} {} of Inr g \<Rightarrow> g | Inl e \<Rightarrow> []),
          {(1, 2)}))" by code_simp
  note enter = dijkstra_blocked_nodes_not_left[OF w i1 i2, of "{2}" True "{}" 5]
  note leave = dijkstra_blocked_nodes_not_left[OF w i2 i3, of "{2}" True "{}" 5]
  from enter leave w c i1 i2 i3 h show ?thesis by simp
qed

section \<open>C5: the best transfer location of the eco route\<close>

text \<open>
  C5: when \<open>EnvironmentallyFriendlyRoute\<close> returns a feasible best result (the test of
  its caller: both paths non-empty and a parking node other than \<open>-1\<close>), the returned
  transfer node is a location \<open>i\<close> of the graph that has parking and differs from
  source and destination; the returned paths, total time and walking time are those of
  the two legs over this location, and its walk is within the budget; and no candidate
  with both legs and a walk within the budget has a strictly lower total time, nor the
  same total time with a strictly lower walking time.  A candidate is a location with
  parking other than source and destination; \<open>eco_candidate\<close> gives the paths, the
  total and the walking time of its two legs, and the walk is within the budget when
  \<open>exceedWalk\<close>, \<open>max 0 (walk - maxWalkingTime)\<close> in 32-bit arithmetic, is \<open>0\<close>.
\<close>

theorem EnvironmentallyFriendlyRoute_best:
  assumes res: "EnvironmentallyFriendlyRoute std_sort g s d mw aN aS
             = Some (Inr ((bDrive, bWalk, bParking, bTotal, bWalking, sugg), g', aS'))"
    and feasible: "bDrive \<noteq> []" "bWalk \<noteq> []" "bParking \<noteq> - 1"
  shows "(\<exists>i<length g. loc_id (g ! i) = bParking \<and> hasParking (g ! i) \<and>
            eco_candidate g s d aN aS i = Some (bDrive, bWalk, bTotal, bWalking) \<and>
            max 0 (wrap_int32 (bWalking - mw)) = 0) \<and>
         bParking \<noteq> s \<and> bParking \<noteq> d \<and>
         (\<forall>i<length g. hasParking (g ! i) \<and> loc_id (g ! i) \<noteq> s \<and> loc_id (g ! i) \<noteq> d \<longrightarrow>
            (\<forall>dp wp t w. eco_candidate g s d aN aS i = Some (dp, wp, t, w) \<and>
                 max 0 (wrap_int32 (w - mw)) = 0 \<longrightarrow>
               \<not> t < bTotal \<and> \<not> (t = bTotal \<and> w < bWalking)))"
proof -
  let ?init = "\<lparr>bestTotalTime = INF_int, bestWalkingTime = INF_int, bestDrive = [],
          bestWalk = [], bestParking = - 1, suggestionsL = []\<rparr>"
  from res obtain loc where
    lp: "eco_loop s d mw aN [0..<length g] (g, aS, ?init) = Some (Inr (g', aS', loc))"
    and l: "bDrive = bestDrive loc" "bParking = bestParking loc" "bTotal = bestTotalTime loc"
       "bWalking = bestWalkingTime loc" "bWalk = bestWalk loc"
    by (auto simp: EnvironmentallyFriendlyRoute_def split: option.splits sum.splits)
  have "best_inv g s d mw aN aS {} ?init" by (simp add: best_inv_def)
  from best_inv_loop[OF lp same_network_refl _ this]
  have inv: "best_inv g s d mw aN aS {0..<length g} loc" by simp
  from inv feasible(1) l obtain i where i: "i < length g" "is_candidate g s d i"
    "loc_id (g ! i) = bParking"
    "eco_candidate g s d aN aS i = Some (bDrive, bWalk, bTotal, bWalking)"
    "max 0 (wrap_int32 (bWalking - mw)) = 0"
    by (auto simp: best_inv_def)
  then have 1: "(\<exists>i<length g. loc_id (g ! i) = bParking \<and> hasParking (g ! i) \<and>
            eco_candidate g s d aN aS i = Some (bDrive, bWalk, bTotal, bWalking) \<and>
            max 0 (wrap_int32 (bWalking - mw)) = 0) \<and>
         bParking \<noteq> s \<and> bParking \<noteq> d"
    by (auto simp: is_candidate_def)
  have 2: "\<not> t < bTotal \<and> \<not> (t = bTotal \<and> w < bWalking)"
    if "i < length g" "hasParking (g ! i)" "loc_id (g ! i) \<noteq> s" "loc_id (g ! i) \<noteq> d"
       "eco_candidate g s d aN aS i = Some (dp, wp, t, w)" "max 0 (wrap_int32 (w - mw)) = 0"
    for i dp wp t w
  proof -
    from that have "is_candidate g s d i" by (simp add: is_candidate_def)
    with inv that have "\<not> better t w loc" by (auto simp: best_inv_def)
    then show ?thesis by (simp add: better_def l)
  qed
  show ?thesis using 1 2 by blast
qed

text \<open>
  In the network with two routes and a budget of 20 both candidates are within the
  budget: over 3 the total is 11 with a walk of 5, over 2 it is 15 with a walk of 10.
\<close>

theorem EnvironmentallyFriendlyRoute_best_witness:
  "sorts_by_totalTime (sort_key totalTime) \<and>
   EnvironmentallyFriendlyRoute (sort_key totalTime) diamond_network 1 4 20 {} {}
     = Some (Inr (([1, 3], [3, 4], 3, 11, 5, []), diamond_eco, {})) \<and>
   hasParking (diamond_network ! 2) \<and> loc_id (diamond_network ! 2) = 3 \<and>
   eco_candidate diamond_network 1 4 {} {} 2 = Some ([1, 3], [3, 4], 11, 5) \<and>
   max 0 (wrap_int32 (5 - 20)) = 0 \<and>
   hasParking (diamond_network ! 1) \<and> loc_id (diamond_network ! 1) = 2 \<and>
   eco_candidate diamond_network 1 4 {} {} 1 = Some ([1, 2], [2, 4], 15, 10) \<and>
   max 0 (wrap_int32 (10 - 20)) = 0 \<and> \<not> (15::int) < 11"
proof -
  have h: "EnvironmentallyFriendlyRoute (sort_key totalTime) diamond_network 1 4 20 {} {}
     = Some (Inr (([1, 3], [3, 4], 3, 11, 5, []), diamond_eco, {}))" by code_simp
  have c: "eco_candidate diamond_network 1 4 {} {} 1 = Some ([1, 2], [2, 4], 15, 10)"
    by code_simp
  have c': "eco_candidate diamond_network 1 4 {} {} 2 = Some ([1, 3], [3, 4], 11, 5)"
    by code_simp
  have p: "hasParking (diamond_network ! 2) \<and> loc_id (diamond_network ! 2) = 3 \<and>
     hasParking (diamond_network ! 1) \<and> loc_id (diamond_network ! 1) = 2" by code_simp
  have e: "max 0 (wrap_int32 (10 - 20)) = 0" "max 0 (wrap_int32 (5 - 20)) = 0" by code_simp+
  from EnvironmentallyFriendlyRoute_best[OF h] h c c' p e sort_key_sorts_by_totalTime
  show ?thesis by simp
qed

section \<open>C6: the suggestions written to the output file\<close>

text \<open>
  C6 states that writing an eco-mode output with a non-empty suggestion list emits at
  most two suggestions and reads only elements inside the list, in particular when the
  list holds exactly one suggestion.  The loop of \<open>writeOutputFile\<close> always runs for
  \<open>i = 0\<close> and \<open>i = 1\<close>: with one suggestion it reads \<open>output.suggestions[1]\<close>,
  outside the vector.  The theorem evaluates the function at such an output.
\<close>

theorem writeOutputFile_one_suggestion_out_of_bounds:
  "writeOutputFile one_suggestion_output = Inl OutOfBounds"
  by code_simp

section \<open>C7: the caller's avoidSegments after the eco route\<close>

text \<open>
  C7: for every call of \<open>EnvironmentallyFriendlyRoute\<close>, the caller's set
  \<open>avoidSegments\<close> is unchanged when the call returns: every candidate works on the
  copy \<open>tmpSegments\<close>, although the parameter is a mutable reference.
\<close>

theorem EnvironmentallyFriendlyRoute_avoidSegments_unchanged:
  assumes "EnvironmentallyFriendlyRoute std_sort g s d mw aN avoidSegments
             = Some (Inr (res, g', avoidSegments'))"
  shows "avoidSegments' = avoidSegments"
proof -
  from assms obtain loc where
    "eco_loop s d mw aN [0..<length g]
       (g, avoidSegments,
        \<lparr>bestTotalTime = INF_int, bestWalkingTime = INF_int, bestDrive = [],
          bestWalk = [], bestParking = - 1, suggestionsL = []\<rparr>)
     = Some (Inr (g', avoidSegments', loc))"
    by (auto simp: EnvironmentallyFriendlyRoute_def split: option.splits sum.splits)
  from eco_loop_avoidSegments[OF this] show ?thesis by simp
qed

theorem EnvironmentallyFriendlyRoute_avoidSegments_unchanged_witness:
  "EnvironmentallyFriendlyRoute (sort_key totalTime) abc_network 1 3 25 {} {(7, 8)}
     = Some (Inr (([1, 2], [2, 3], 2, 8, 3, []), abc_walked, {(7, 8)}))"
proof -
  have h: "EnvironmentallyFriendlyRoute (sort_key totalTime) abc_network 1 3 25 {} {(7, 8)}
     = Some (Inr (([1, 2], [2, 3], 2, 8, 3, []), abc_walked, {(7, 8)}))"
    by code_simp
  from EnvironmentallyFriendlyRoute_avoidSegments_unchanged[OF h] h show ?thesis by simp
qed

section \<open>C8: a search does not depend on earlier searches\<close>

text \<open>
  C8: for every graph, source, destination, mode flag and set of blocked nodes, two
  calls of \<open>dijkstra\<close> that are each given a fresh set of blocked segments with the
  same initial content return the same path and the same total cost: the result does
  not depend on the distances and parent references that earlier searches left in the
  locations.
  \<^item> \<open>same_network g g'\<close> says that \<open>g'\<close> is \<open>g\<close> with any distances and parent
    references whatever.  On two such graphs the same query with the same sets has the
    same outcome: the same path and cost, the same final set, the same graph left
    behind; or no return from either call.
  \<^item> In particular the graph \<open>g1\<close> that an earlier search of \<open>g\<close> left, whatever
    its query \<open>s0\<close>, \<open>d0\<close>, \<open>isD0\<close>, \<open>bN0\<close>, \<open>bS0\<close> was, gives every
    query the outcome that \<open>g\<close> gives it.
\<close>

theorem dijkstra_ignores_earlier_searches:
  "(same_network g g' \<longrightarrow> dijkstra g' s d isD bN bS = dijkstra g s d isD bN bS) \<and>
   (dijkstra g s0 d0 isD0 bN0 bS0 = Some (Inr (r0, g1, bS1)) \<longrightarrow>
      dijkstra g1 s d isD bN bS = dijkstra g s d isD bN bS)"
  using dijkstra_transient[of g g' s d isD bN bS]
    dijkstra_transient[OF dijkstra_same_network[of g s0 d0 isD0 bN0 bS0 r0 g1 bS1], of s d isD bN bS]
  by blast

text \<open>
  \<open>abc_walked\<close> holds the state of a walk from 2, \<open>abc_searched\<close> the state the
  search from 1 to 3 leaves: on both the search from 3 to 1 finds what it finds on the
  example network as it was built.
\<close>

theorem dijkstra_ignores_earlier_searches_witness:
  "same_network abc_network abc_walked \<and>
   dijkstra abc_walked 3 1 True {} {} = dijkstra abc_network 3 1 True {} {} \<and>
   dijkstra abc_network 1 3 True {} {}
     = Some (Inr (([1, 2, 3], 9), abc_searched, {(1, 2), (2, 3)})) \<and>
   dijkstra abc_searched 3 1 True {} {} = dijkstra abc_network 3 1 True {} {} \<and>
   map_option (map_sum id fst) (dijkstra abc_network 3 1 True {} {})
     = Some (Inr ([3, 2, 1], 9)) \<and>
   abc_walked \<noteq> abc_network \<and> abc_searched \<noteq> abc_network"
proof -
  have sn: "same_network abc_network abc_walked" by code_simp
  have h: "dijkstra abc_network 1 3 True {} {}
     = Some (Inr (([1, 2, 3], 9), abc_searched, {(1, 2), (2, 3)}))" by code_simp
  have r: "map_option (map_sum id fst) (dijkstra abc_network 3 1 True {} {})
     = Some (Inr ([3, 2, 1], 9))" by code_simp
  have ne: "abc_walked \<noteq> abc_network \<and> abc_searched \<noteq> abc_network" by code_simp
  from dijkstra_ignores_earlier_searches[of abc_network abc_walked 3 1 True "{}" "{}"
      1 3 True "{}" "{}" "([1, 2, 3], 9)" abc_searched "{(1, 2), (2, 3)}"]
    sn h r ne show ?thesis by simp
qed

section \<open>C9: source and destination are the same location\<close>

text \<open>
  C9 as stated: for every graph that contains a location with identifier \<open>s\<close>, the
  search from \<open>s\<close> to \<open>s\<close> returns the path \<open>[s]\<close> with total cost \<open>0\<close>,
  whatever is blocked.  The returned cost is the distance of the source after the
  loop, and a round trip that overflows lowers it: in \<open>long_network\<close>, going to 2
  and back costs \<open>2^31\<close>, which wraps to \<open>-2^31\<close>.
\<close>

theorem dijkstra_source_cost_overflows:
  "wf_graph long_network \<and> nonneg_costs long_network \<and>
   map_option (map_sum id fst) (dijkstra long_network 1 1 True {} {})
     = Some (Inr ([1], - 2147483648))"
  by code_simp

text \<open>
  C9, amended: on a well-formed graph whose usable costs of the selected mode are
  non-negative and at most \<open>W\<close>, with \<open>W\<close> times the number of locations below
  \<open>INF\<close>, the search from a location \<open>s\<close> of the graph to itself returns the path
  \<open>[s]\<close> with total cost \<open>0\<close> and leaves the blocked segments as they were, for
  all sets of blocked locations and segments, also when \<open>s\<close> itself is blocked.
\<close>

theorem dijkstra_source_is_destination:
  assumes wf: "wf_graph g" and costs: "costs_ok g isD W" and s: "s \<in> set (map loc_id g)"
  shows "\<exists>g'. dijkstra g s s isD bN bS = Some (Inr (([s], 0), g', bS))"
proof -
  from findLocation_member[OF s] obtain src where src: "findLocation g s = Some src" by blast
  from dijkstra_search_dij_inv[OF wf costs src, of bN bS] obtain g' ds where
    ds: "dijkstra_search g s isD bN bS = Inr g'" "same_network g g'"
    "dij_inv isD bN bS W src ds {} (g', [])" by blast
  note D = dij_invD[OF ds(3)]
  have f': "findLocation g' s = Some src" using findLocation_same_network[OF ds(2), of s] src by simp
  from findLocation_Some[OF f'] have id: "loc_id (g' ! src) = s" by simp
  have rc: "reconstruct g' s src [loc_id (g' ! src)] bS = Some ([loc_id (g' ! src)], bS)"
    by (subst reconstruct.simps) (simp add: D(5))
  have "dijkstra g s s isD bN bS = Some (Inr (([s], 0), g', bS))"
    using ds(1) f' D(4) rc id by (simp add: dijkstra_def Let_def INF_int_def)
  then show ?thesis by blast
qed

theorem dijkstra_source_is_destination_witness:
  "wf_graph abc_network \<and> costs_ok abc_network True 5 \<and> 2 \<in> set (map loc_id abc_network) \<and>
   dijkstra abc_network 2 2 True {2} {(1, 2)} = Some (Inr (([2], 0), abc_blocked, {(1, 2)}))"
proof -
  have w: "wf_graph abc_network" by code_simp
  have c: "costs_ok abc_network True 5" by code_simp
  have s: "2 \<in> set (map loc_id abc_network)" by code_simp
  have h: "dijkstra abc_network 2 2 True {2} {(1, 2)}
     = Some (Inr (([2], 0), abc_blocked, {(1, 2)}))" by code_simp
  from dijkstra_source_is_destination[OF w c s, of "{2}" "{(1, 2)}"] w c s h show ?thesis by simp
qed

section \<open>C10: the parent references form a chain back to the source\<close>

text \<open>
  C10 as stated: on a graph with non-negative costs, when the destination ends with a
  finite distance the parent references form an acyclic chain from the destination
  back to the source, so the reconstruction ends after at most as many steps as there
  are locations.  With costs that overflow the distances are no longer monotone: in
  \<open>cycle_network\<close> the search from 1 leaves the locations 2 and 3 as each other's
  parent, the destination 3 has the finite distance \<open>-1073741823\<close>, and the
  reconstruction never reaches the source: the call does not return.
\<close>

theorem reconstruct_cycle_diverges:
  "wf_graph cycle_network \<and> nonneg_costs cycle_network \<and>
   dijkstra_search cycle_network 1 True {} {} = Inr cycle_searched \<and>
   findLocation cycle_searched 3 = Some 2 \<and>
   distance (cycle_searched ! 2) = - 1073741823 \<and>
   reconstruct cycle_searched 1 2 [3] {} = None \<and>
   dijkstra cycle_network 1 3 True {} {} = None"
proof -
  have w: "wf_graph cycle_network \<and> nonneg_costs cycle_network" by code_simp
  have s: "dijkstra_search cycle_network 1 True {} {} = Inr cycle_searched" by code_simp
  have f: "findLocation cycle_searched 3 = Some 2" by code_simp
  have d: "distance (cycle_searched ! 2) = - 1073741823" by code_simp
  have i: "loc_id (cycle_searched ! 2) = 3" by code_simp
  have r: "reconstruct cycle_searched 1 2 [3] {} = None"
  proof (rule ccontr)
    assume "reconstruct cycle_searched 1 2 [3] {} \<noteq> None"
    then obtain y where "reconstruct cycle_searched 1 2 [3] {} = Some y" by auto
    from reconstruct_Some[OF this] obtain rs where "parent_chain cycle_searched 1 2 rs" by blast
    from cycle_no_chain[OF this] show False by simp
  qed
  have "dijkstra cycle_network 1 3 True {} {} = None"
    using s f d i r by (simp add: dijkstra_def Let_def INF_int_def)
  with w s f d r show ?thesis by simp
qed

text \<open>
  C10, amended: on a well-formed graph whose usable costs of the selected mode are
  non-negative and at most \<open>W\<close>, with \<open>W\<close> times the number of locations below
  \<open>INF\<close>, when the destination ends with a distance other than \<open>INF\<close> the
  reconstruction loop returns: it follows a chain of parent roads \<open>rs\<close> from the
  destination that visits no location twice and ends at the source, in fewer steps
  than there are locations.
\<close>

theorem reconstruct_terminates:
  assumes "wf_graph g" and "costs_ok g isD W"
    and "dijkstra_search g s isD bN bS = Inr g'"
    and "findLocation g' d = Some dst" and "distance (g' ! dst) \<noteq> INF_int"
  shows "\<exists>rs. reconstruct g' s dst [loc_id (g' ! dst)] bS
                 = Some (chain_ids g' dst rs, bS \<union> set (map (road_pair g') rs)) \<and>
              parent_chain g' s dst rs \<and> distinct (dst # map origin rs) \<and>
              last (chain_ids g' dst rs) = s \<and> length rs < length g'"
proof -
  from dijkstra_search_chain[OF assms] obtain rs where rs:
    "parent_chain g' s dst rs" "distinct (dst # map origin rs)"
    "length rs < length g'" "last (chain_ids g' dst rs) = s" by blast
  from reconstruct_chain[OF rs(1), of "[loc_id (g' ! dst)]" bS]
  have "reconstruct g' s dst [loc_id (g' ! dst)] bS
          = Some (chain_ids g' dst rs, bS \<union> set (map (road_pair g') rs))"
    by (simp add: chain_ids_def)
  with rs show ?thesis by blast
qed

theorem reconstruct_terminates_witness:
  "wf_graph abc_network \<and> costs_ok abc_network True 5 \<and>
   dijkstra_search abc_network 1 True {} {} = Inr abc_searched \<and>
   findLocation abc_searched 3 = Some 2 \<and> distance (abc_searched ! 2) = 9 \<and>
   reconstruct abc_searched 1 2 [3] {} = Some ([3, 2, 1], {(2, 3), (1, 2)})"
proof -
  have w: "wf_graph abc_network" by code_simp
  have c: "costs_ok abc_network True 5" by code_simp
  have s: "dijkstra_search abc_network 1 True {} {} = Inr abc_searched" by code_simp
  have f: "findLocation abc_searched 3 = Some 2" by code_simp
  have d: "distance (abc_searched ! 2) = 9" by code_simp
  have d': "distance (abc_searched ! 2) \<noteq> INF_int" by code_simp
  have r: "reconstruct abc_searched 1 2 [3] {} = Some ([3, 2, 1], {(2, 3), (1, 2)})" by code_simp
  from reconstruct_terminates[OF w c s f d'] w c s f d r show ?thesis by simp
qed

end
